theory Spec2Isabelle
  imports Main "HOL-Library.Multiset"
begin

section \<open>Time values\<close>

text \<open>
  A Go \<^verbatim>\<open>time.Time\<close> is modelled as an integer: the number of nanoseconds of wall-clock
  time since 1970-01-01T00:00:00 in the one fixed-offset zone that all timestamps of a
  call share. A \<^verbatim>\<open>time.Duration\<close> is an integer number of nanoseconds.  \<^verbatim>\<open>Before\<close>,
  \<^verbatim>\<open>After\<close> and \<^verbatim>\<open>Equal\<close> are \<open><\<close>, \<open>>\<close> and \<open>=\<close>; \<^verbatim>\<open>Add\<close> is \<open>+\<close>.
  The 64-bit limits of the Go representation are not modelled.
\<close>

type_synonym Time = int
type_synonym Duration = int

definition Minute :: Duration where
  "Minute = 60000000000"

definition Hour :: Duration where
  "Hour = 60 * Minute"

definition Day :: Duration where
  "Day = 24 * Hour"

section \<open>Busy intervals and their merging\<close>

text \<open>
  The two structs of the source share the field names \<^verbatim>\<open>Start\<close> and \<^verbatim>\<open>End\<close>.  The
  unqualified names belong to \<open>timeSlot\<close>; the fields of \<open>busyTime\<close> are written with
  their qualified names.
\<close>

record busyTime =
  Start :: Time
  End :: Time
  Summary :: string
  Organizer :: string
  CalendarId :: string

record timeSlot =
  Start :: Time
  End :: Time

text \<open>
  The exchange sort at the head of \<^verbatim>\<open>mergeTimeSlots\<close>: for every \<open>i\<close>, the inner loop
  runs \<open>j\<close> from \<open>i + 1\<close> and swaps positions \<open>i\<close> and \<open>j\<close> whenever the start at \<open>i\<close> is
  after the start at \<open>j\<close>.
\<close>

function sortInner :: "timeSlot list \<Rightarrow> nat \<Rightarrow> nat \<Rightarrow> timeSlot list" where
  "sortInner slots i j =
     (if j < length slots
      then sortInner
             (if Start (slots ! i) > Start (slots ! j)
              then slots[i := slots ! j, j := slots ! i]
              else slots) i (j + 1)
      else slots)"
  by pat_completeness auto
termination
  by (relation "measure (\<lambda>(slots, i, j). length slots - j)") auto

declare sortInner.simps [simp del]

lemma length_sortInner [simp]: "length (sortInner slots i j) = length slots"
proof (induction slots i j rule: sortInner.induct)
  case (1 slots i j)
  show ?case
  proof (cases "j < length slots")
    case True
    with "1" show ?thesis by (subst sortInner.simps) simp
  next
    case False
    then show ?thesis by (subst sortInner.simps) simp
  qed
qed

function sortOuter :: "timeSlot list \<Rightarrow> nat \<Rightarrow> timeSlot list" where
  "sortOuter slots i =
     (if i < length slots
      then sortOuter (sortInner slots i (i + 1)) (i + 1)
      else slots)"
  by pat_completeness auto
termination
  by (relation "measure (\<lambda>(slots, i). length slots - i)") auto

declare sortOuter.simps [simp del]

text \<open>
  The scan of \<^verbatim>\<open>mergeTimeSlots\<close>: \<open>merged\<close> is the slice built so far, whose last element
  is extended in place when the next slot starts before or at its end; the second
  argument holds the slots still to visit (\<^verbatim>\<open>slots[i:]\<close>).
\<close>

fun mergeLoop :: "timeSlot list \<Rightarrow> timeSlot list \<Rightarrow> timeSlot list" where
  "mergeLoop merged [] = merged"
| "mergeLoop merged (s # rest) =
     (if Start s < End (last merged) \<or> Start s = End (last merged)
      then (if End s > End (last merged)
            then mergeLoop (butlast merged @ [(last merged)\<lparr>End := End s\<rparr>]) rest
            else mergeLoop merged rest)
      else mergeLoop (merged @ [s]) rest)"

definition mergeTimeSlots :: "timeSlot list \<Rightarrow> timeSlot list" where
  "mergeTimeSlots slots =
     (if length slots = 0 then slots
      else let sorted = sortOuter slots 0
           in mergeLoop [sorted ! 0] (drop 1 sorted))"

section \<open>Working hours\<close>

text \<open>
  \<^verbatim>\<open>strings.Split(s, sep)\<close> for a separator of one character: the pieces between the
  occurrences of the separator, so a string with \<open>n\<close> separators gives \<open>n + 1\<close> pieces.
  The result of the recursive call is never empty; the first branch of the \<open>case\<close> is
  there only to make the function total.
\<close>

fun splitOn :: "char \<Rightarrow> string \<Rightarrow> string list" where
  "splitOn c [] = [[]]"
| "splitOn c (x # xs) =
     (if x = c then [] # splitOn c xs
      else (case splitOn c xs of [] \<Rightarrow> [[x]] | piece # pieces \<Rightarrow> (x # piece) # pieces))"

text \<open>
  \<^verbatim>\<open>fmt.Sscanf(str, "%d", &n)\<close> of the Go library.  White space other than a newline
  is skipped, one sign is accepted, then at least one decimal digit is required; the
  digits are read as far as they go and whatever follows is ignored.  The value must fit
  into 64 bits.  \<open>None\<close> stands for a non-nil error, in which case the variable is not
  assigned.

  White space is what the scanner of \<^verbatim>\<open>fmt\<close> takes for it: the ASCII blanks, and
  the code points U+0085, U+00A0, U+1680, U+2000 to U+200A, U+2028, U+2029, U+202F,
  U+205F and U+3000, which a Go string holds in UTF-8, as two or three bytes.  A newline
  is not skipped; it stays in front of the input, where no number starts.
\<close>

definition isBlank :: "char \<Rightarrow> bool" where
  "isBlank c \<longleftrightarrow> c = CHR '' '' \<or> c = CHR 0x09 \<or> c = CHR 0x0B \<or> c = CHR 0x0C \<or> c = CHR 0x0D"

definition isSpace2 :: "char \<Rightarrow> char \<Rightarrow> bool" where
  "isSpace2 a b \<longleftrightarrow> a = CHR 0xC2 \<and> (b = CHR 0x85 \<or> b = CHR 0xA0)"

definition isSpace3 :: "char \<Rightarrow> char \<Rightarrow> char \<Rightarrow> bool" where
  "isSpace3 a b c \<longleftrightarrow>
     a = CHR 0xE1 \<and> b = CHR 0x9A \<and> c = CHR 0x80 \<or>
     a = CHR 0xE2 \<and> b = CHR 0x80 \<and>
       ((128::nat) \<le> of_char c \<and> of_char c \<le> (138::nat) \<or>
        c = CHR 0xA8 \<or> c = CHR 0xA9 \<or> c = CHR 0xAF) \<or>
     a = CHR 0xE2 \<and> b = CHR 0x81 \<and> c = CHR 0x9F \<or>
     a = CHR 0xE3 \<and> b = CHR 0x80 \<and> c = CHR 0x80"

fun SkipSpace :: "string \<Rightarrow> string" where
  "SkipSpace (a # b # c # s) =
     (if isBlank a then SkipSpace (b # c # s)
      else if isSpace2 a b then SkipSpace (c # s)
      else if isSpace3 a b c then SkipSpace s
      else a # b # c # s)"
| "SkipSpace [a, b] =
     (if isBlank a then SkipSpace [b]
      else if isSpace2 a b then []
      else [a, b])"
| "SkipSpace [a] = (if isBlank a then [] else [a])"
| "SkipSpace [] = []"

definition isDigit :: "char \<Rightarrow> bool" where
  "isDigit c \<longleftrightarrow> (48::nat) \<le> of_char c \<and> of_char c \<le> (57::nat)"

definition digitVal :: "char \<Rightarrow> int" where
  "digitVal c = of_char c - 48"

definition decimal :: "string \<Rightarrow> int" where
  "decimal ds = foldl (\<lambda>a c. 10 * a + digitVal c) 0 ds"

definition Sscanf_d :: "string \<Rightarrow> int option" where
  "Sscanf_d str =
     (let s = SkipSpace str;
          neg = (s \<noteq> [] \<and> hd s = CHR ''-'');
          r = (if s \<noteq> [] \<and> (hd s = CHR ''-'' \<or> hd s = CHR ''+'') then tl s else s);
          ds = takeWhile isDigit r;
          v = (if neg then - decimal ds else decimal ds)
      in if ds = [] then None
         else if - (2 ^ 63) \<le> v \<and> v < 2 ^ 63 then Some v
         else None)"

definition parseTimeString :: "string \<Rightarrow> int \<times> int" where
  "parseTimeString timeStr =
     (let parts = splitOn CHR '':'' timeStr
      in if length parts \<noteq> 2 then (9, 0)
         else (case Sscanf_d (parts ! 0) of None \<Rightarrow> 9 | Some hour \<Rightarrow> hour,
               case Sscanf_d (parts ! 1) of None \<Rightarrow> 0 | Some minute \<Rightarrow> minute))"

section \<open>Calendar arithmetic\<close>

text \<open>
  \<open>Date t hour min\<close> is \<^verbatim>\<open>time.Date(t.Year(), t.Month(), t.Day(), hour, min, 0, 0,
  t.Location())\<close>: midnight of the day of \<open>t\<close> plus the given hours and minutes.  Go
  normalises hours and minutes outside their usual ranges by carrying into the day,
  which is what the linear formula does.  \<open>Weekday\<close> counts from Sunday = 0; day 0 of the
  time scale is a Thursday.  \<open>AddDate t days\<close> is \<^verbatim>\<open>t.AddDate(0, 0, days)\<close>.
  The integers are unbounded here: an hour or a minute so large that Go's 64-bit
  arithmetic wraps around is outside what these definitions describe.
\<close>

definition Date :: "Time \<Rightarrow> int \<Rightarrow> int \<Rightarrow> Time" where
  "Date t hour minute = (t div Day) * Day + hour * Hour + minute * Minute"

definition Weekday :: "Time \<Rightarrow> int" where
  "Weekday t = (t div Day + 4) mod 7"

definition Sunday :: int where
  "Sunday = 0"

definition Monday :: int where
  "Monday = 1"

definition Saturday :: int where
  "Saturday = 6"

definition AddDate :: "Time \<Rightarrow> int \<Rightarrow> Time" where
  "AddDate t days = t + days * Day"

section \<open>The slot search\<close>

text \<open>
  The conflict check of one candidate: the \<^verbatim>\<open>range busySlots\<close> loop with its \<^verbatim>\<open>break\<close>.
  It returns \<^verbatim>\<open>isAvailable\<close> and the value of \<^verbatim>\<open>currentTime\<close> after the loop.
\<close>

fun checkBusy :: "Time \<Rightarrow> Time \<Rightarrow> timeSlot list \<Rightarrow> bool \<times> Time" where
  "checkBusy currentTime slotEnd [] = (True, currentTime)"
| "checkBusy currentTime slotEnd (busySlot # rest) =
     (if currentTime < End busySlot \<and> slotEnd > Start busySlot
      then (False, if End busySlot > currentTime then End busySlot else currentTime)
      else checkBusy currentTime slotEnd rest)"

lemma checkBusy_available:
  "checkBusy ct se busy = (True, ct') \<Longrightarrow> ct' = ct"
  by (induction busy) (auto split: if_splits)

lemma checkBusy_conflict:
  "checkBusy ct se busy = (False, ct') \<Longrightarrow> ct < ct' \<and> (\<exists>b\<in>set busy. ct' = End b)"
  by (induction busy) (auto split: if_splits)

lemma length_filter_later:
  "ct \<le> ct' \<Longrightarrow>
   length (filter (\<lambda>b. ct' < End b) busy) \<le> length (filter (\<lambda>b. ct < End b) busy)"
  by (induction busy) auto

lemma length_filter_jump:
  "b \<in> set busy \<Longrightarrow> ct < End b \<Longrightarrow>
   length (filter (\<lambda>x. End b < End x) busy) < length (filter (\<lambda>x. ct < End x) busy)"
proof (induction busy)
  case Nil
  then show ?case by simp
next
  case (Cons a busy)
  have le: "length (filter (\<lambda>x. End b < End x) busy) \<le> length (filter (\<lambda>x. ct < End x) busy)"
    using Cons.prems(2) by (intro length_filter_later) simp
  show ?case
  proof (cases "a = b")
    case True
    then show ?thesis using le Cons.prems(2) by simp
  next
    case False
    with Cons have "length (filter (\<lambda>x. End b < End x) busy) < length (filter (\<lambda>x. ct < End x) busy)"
      by simp
    then show ?thesis using Cons.prems(2) by auto
  qed
qed

text \<open>
  The scan of one day: the inner \<^verbatim>\<open>for\<close> loop of \<^verbatim>\<open>findAvailableSlots\<close>, from the
  cursor \<open>currentTime\<close> with the slots found so far.
\<close>

function dayLoop ::
  "Time \<Rightarrow> timeSlot list \<Rightarrow> Duration \<Rightarrow> int \<Rightarrow> Time \<Rightarrow> timeSlot list \<Rightarrow> timeSlot list" where
  "dayLoop dayEnd busySlots duration maxResults currentTime availableSlots =
     (if currentTime + duration < dayEnd \<or> currentTime + duration = dayEnd
      then (let slotEnd = currentTime + duration;
                chk = checkBusy currentTime slotEnd busySlots
            in if fst chk
               then (let found = availableSlots @ [\<lparr>Start = snd chk, End = slotEnd\<rparr>]
                     in if int (length found) \<ge> maxResults then found
                        else dayLoop dayEnd busySlots duration maxResults
                               (snd chk + 30 * Minute) found)
               else dayLoop dayEnd busySlots duration maxResults (snd chk) availableSlots)
      else availableSlots)"
  by pat_completeness auto
termination
proof (relation "inv_image (less_than <*lex*> less_than)
    (\<lambda>(dayEnd, busySlots, duration, maxResults, currentTime, availableSlots).
       (length (filter (\<lambda>b. currentTime < End b) busySlots),
        nat (dayEnd - duration - currentTime + 1)))", goal_cases)
  case 1
  show ?case by (intro wf_inv_image wf_lex_prod wf_less_than)
next
  case (2 dayEnd busySlots duration maxResults currentTime availableSlots slotEnd chk found)
  then have "snd chk = currentTime"
    using checkBusy_available[of currentTime slotEnd busySlots "snd chk"]
    by (metis prod.collapse)
  moreover have "length (filter (\<lambda>b. currentTime + 30 * Minute < End b) busySlots)
      \<le> length (filter (\<lambda>b. currentTime < End b) busySlots)"
    by (rule length_filter_later) (simp add: Minute_def)
  ultimately show ?case using 2(1) by (auto simp: Minute_def)
next
  case (3 dayEnd busySlots duration maxResults currentTime availableSlots slotEnd chk)
  then have "checkBusy currentTime slotEnd busySlots = (False, snd chk)"
    by (metis prod.collapse)
  from checkBusy_conflict[OF this] obtain b where
    "b \<in> set busySlots" "snd chk = End b" "currentTime < End b" by auto
  then show ?case using length_filter_jump[of b busySlots currentTime] by simp
qed

declare dayLoop.simps [simp del]

text \<open>
  The loop over the days: the outer \<^verbatim>\<open>for\<close> loop of \<^verbatim>\<open>findAvailableSlots\<close>, from
  \<open>currentDate\<close> with the slots found so far.
\<close>

function dateLoop ::
  "Time \<Rightarrow> Time \<Rightarrow> timeSlot list \<Rightarrow> Duration \<Rightarrow> int \<Rightarrow> int \<Rightarrow> int \<Rightarrow> int \<Rightarrow> int \<Rightarrow>
   Time \<Rightarrow> timeSlot list \<Rightarrow> timeSlot list" where
  "dateLoop startDate endDate busySlots duration workStartHour workStartMin
       workEndHour workEndMin maxResults currentDate availableSlots =
     (if currentDate < endDate \<and> int (length availableSlots) < maxResults
      then (let dayStart = Date currentDate workStartHour workStartMin;
                dayEnd = Date currentDate workEndHour workEndMin
            in if Weekday currentDate = Saturday \<or> Weekday currentDate = Sunday
               then dateLoop startDate endDate busySlots duration workStartHour workStartMin
                      workEndHour workEndMin maxResults (AddDate currentDate 1) availableSlots
               else (let dayStart = (if dayStart < startDate then startDate else dayStart);
                         dayEnd = (if dayEnd > endDate then endDate else dayEnd)
                     in dateLoop startDate endDate busySlots duration workStartHour workStartMin
                          workEndHour workEndMin maxResults (AddDate currentDate 1)
                          (dayLoop dayEnd busySlots duration maxResults dayStart availableSlots)))
      else availableSlots)"
  by pat_completeness auto
termination
  by (relation "measure (\<lambda>(startDate, endDate, busySlots, duration, workStartHour,
        workStartMin, workEndHour, workEndMin, maxResults, currentDate, availableSlots).
        nat (endDate - currentDate))")
    (auto simp: AddDate_def Day_def Hour_def Minute_def)

declare dateLoop.simps [simp del]

definition findAvailableSlots ::
  "Time \<Rightarrow> Time \<Rightarrow> timeSlot list \<Rightarrow> Duration \<Rightarrow> string \<Rightarrow> string \<Rightarrow> int \<Rightarrow> timeSlot list" where
  "findAvailableSlots startDate endDate busySlots duration workStart workEnd maxResults =
     (let availableSlots = [];
          workStartHour = fst (parseTimeString workStart);
          workStartMin = snd (parseTimeString workStart);
          workEndHour = fst (parseTimeString workEnd);
          workEndMin = snd (parseTimeString workEnd);
          currentDate = startDate
      in dateLoop startDate endDate busySlots duration workStartHour workStartMin
           workEndHour workEndMin maxResults currentDate availableSlots)"

text \<open>
  The same two loops without any termination argument: a run that never leaves a loop
  has the value \<open>None\<close>.
\<close>

partial_function (option) dayLoopOpt ::
  "Time \<Rightarrow> timeSlot list \<Rightarrow> Duration \<Rightarrow> int \<Rightarrow> Time \<Rightarrow> timeSlot list \<Rightarrow> timeSlot list option" where
  "dayLoopOpt dayEnd busySlots duration maxResults currentTime availableSlots =
     (if currentTime + duration < dayEnd \<or> currentTime + duration = dayEnd
      then (if fst (checkBusy currentTime (currentTime + duration) busySlots)
            then (if int (length (availableSlots @
                       [\<lparr>Start = snd (checkBusy currentTime (currentTime + duration) busySlots),
                         End = currentTime + duration\<rparr>])) \<ge> maxResults
                  then Some (availableSlots @
                       [\<lparr>Start = snd (checkBusy currentTime (currentTime + duration) busySlots),
                         End = currentTime + duration\<rparr>])
                  else dayLoopOpt dayEnd busySlots duration maxResults
                         (snd (checkBusy currentTime (currentTime + duration) busySlots) + 30 * Minute)
                         (availableSlots @
                       [\<lparr>Start = snd (checkBusy currentTime (currentTime + duration) busySlots),
                         End = currentTime + duration\<rparr>]))
            else dayLoopOpt dayEnd busySlots duration maxResults
                   (snd (checkBusy currentTime (currentTime + duration) busySlots)) availableSlots)
      else Some availableSlots)"

partial_function (option) dateLoopOpt ::
  "Time \<Rightarrow> Time \<Rightarrow> timeSlot list \<Rightarrow> Duration \<Rightarrow> int \<Rightarrow> int \<Rightarrow> int \<Rightarrow> int \<Rightarrow> int \<Rightarrow>
   Time \<Rightarrow> timeSlot list \<Rightarrow> timeSlot list option" where
  "dateLoopOpt startDate endDate busySlots duration workStartHour workStartMin
       workEndHour workEndMin maxResults currentDate availableSlots =
     (if currentDate < endDate \<and> int (length availableSlots) < maxResults
      then (if Weekday currentDate = Saturday \<or> Weekday currentDate = Sunday
            then dateLoopOpt startDate endDate busySlots duration workStartHour workStartMin
                   workEndHour workEndMin maxResults (AddDate currentDate 1) availableSlots
            else Option.bind
                   (dayLoopOpt
                      (if Date currentDate workEndHour workEndMin > endDate then endDate
                       else Date currentDate workEndHour workEndMin)
                      busySlots duration maxResults
                      (if Date currentDate workStartHour workStartMin < startDate then startDate
                       else Date currentDate workStartHour workStartMin)
                      availableSlots)
                   (dateLoopOpt startDate endDate busySlots duration workStartHour workStartMin
                      workEndHour workEndMin maxResults (AddDate currentDate 1)))
      else Some availableSlots)"

definition findAvailableSlotsOpt ::
  "Time \<Rightarrow> Time \<Rightarrow> timeSlot list \<Rightarrow> Duration \<Rightarrow> string \<Rightarrow> string \<Rightarrow> int \<Rightarrow> timeSlot list option" where
  "findAvailableSlotsOpt startDate endDate busySlots duration workStart workEnd maxResults =
     dateLoopOpt startDate endDate busySlots duration
       (fst (parseTimeString workStart)) (snd (parseTimeString workStart))
       (fst (parseTimeString workEnd)) (snd (parseTimeString workEnd))
       maxResults startDate []"

text \<open>
  The outer loop once more, now recording the values of \<^verbatim>\<open>currentDate\<close> at which
  its body is entered, in order.
\<close>

function visitedDates ::
  "Time \<Rightarrow> Time \<Rightarrow> timeSlot list \<Rightarrow> Duration \<Rightarrow> int \<Rightarrow> int \<Rightarrow> int \<Rightarrow> int \<Rightarrow> int \<Rightarrow>
   Time \<Rightarrow> timeSlot list \<Rightarrow> Time list" where
  "visitedDates startDate endDate busySlots duration workStartHour workStartMin
       workEndHour workEndMin maxResults currentDate availableSlots =
     (if currentDate < endDate \<and> int (length availableSlots) < maxResults
      then currentDate #
           (let dayStart = Date currentDate workStartHour workStartMin;
                dayEnd = Date currentDate workEndHour workEndMin
            in if Weekday currentDate = Saturday \<or> Weekday currentDate = Sunday
               then visitedDates startDate endDate busySlots duration workStartHour workStartMin
                      workEndHour workEndMin maxResults (AddDate currentDate 1) availableSlots
               else (let dayStart = (if dayStart < startDate then startDate else dayStart);
                         dayEnd = (if dayEnd > endDate then endDate else dayEnd)
                     in visitedDates startDate endDate busySlots duration workStartHour workStartMin
                          workEndHour workEndMin maxResults (AddDate currentDate 1)
                          (dayLoop dayEnd busySlots duration maxResults dayStart availableSlots)))
      else [])"
  by pat_completeness auto
termination
  by (relation "measure (\<lambda>(startDate, endDate, busySlots, duration, workStartHour,
        workStartMin, workEndHour, workEndMin, maxResults, currentDate, availableSlots).
        nat (endDate - currentDate))")
    (auto simp: AddDate_def Day_def Hour_def Minute_def)

declare visitedDates.simps [simp del]

definition loopDates ::
  "Time \<Rightarrow> Time \<Rightarrow> timeSlot list \<Rightarrow> Duration \<Rightarrow> string \<Rightarrow> string \<Rightarrow> int \<Rightarrow> Time list" where
  "loopDates startDate endDate busySlots duration workStart workEnd maxResults =
     visitedDates startDate endDate busySlots duration
       (fst (parseTimeString workStart)) (snd (parseTimeString workStart))
       (fst (parseTimeString workEnd)) (snd (parseTimeString workEnd))
       maxResults startDate []"

section \<open>The handler of the slot tool\<close>

text \<open>
  Strings of the Go library: \<^verbatim>\<open>strings.TrimSpace\<close>, \<^verbatim>\<open>strings.ToLower\<close> and
  \<^verbatim>\<open>strings.Contains\<close>.  The first two are described for ASCII text only: white
  space and capital letters beyond ASCII are left as they are.
\<close>

definition isSpace :: "char \<Rightarrow> bool" where
  "isSpace c \<longleftrightarrow> isBlank c \<or> c = CHR 0x0A"

definition TrimSpace :: "string \<Rightarrow> string" where
  "TrimSpace s = rev (dropWhile isSpace (rev (dropWhile isSpace s)))"

definition toLowerChar :: "char \<Rightarrow> char" where
  "toLowerChar c =
     (if (65::nat) \<le> of_char c \<and> of_char c \<le> (90::nat) then char_of (of_char c + (32::nat)) else c)"

definition ToLower :: "string \<Rightarrow> string" where
  "ToLower s = map toLowerChar s"

fun HasPrefix :: "string \<Rightarrow> string \<Rightarrow> bool" where
  "HasPrefix s [] = True"
| "HasPrefix [] (p # ps) = False"
| "HasPrefix (c # s) (p # ps) = (c = p \<and> HasPrefix s ps)"

fun Contains :: "string \<Rightarrow> string \<Rightarrow> bool" where
  "Contains [] substr = (substr = [])"
| "Contains (c # s) substr = (HasPrefix (c # s) substr \<or> Contains s substr)"

text \<open>
  An event as the calendar service returns it, with the fields the handler reads:
  \<^verbatim>\<open>Location\<close>, \<^verbatim>\<open>Start.DateTime\<close>, \<^verbatim>\<open>End.DateTime\<close>, \<^verbatim>\<open>Summary\<close> and the e-mail
  address of \<^verbatim>\<open>Organizer\<close> when that pointer is not nil.
\<close>

record event =
  Location :: string
  StartDateTime :: string
  EndDateTime :: string
  Summary :: string
  OrganizerEmail :: "string option"

text \<open>
  Two collaborators are parameters of the handler.  \<open>timeParse\<close> is
  \<^verbatim>\<open>time.Parse(time.RFC3339, _)\<close>: it returns a time and whether the error is nil.
  \<open>listEvents calendarId startDate endDate\<close> is the request
  \<^verbatim>\<open>Events.List(calendarId)...Do()\<close> for the range; \<open>None\<close> stands for a non-nil error.
\<close>

type_synonym timeParser = "string \<Rightarrow> Time \<times> bool"
type_synonym eventLister = "string \<Rightarrow> Time \<Rightarrow> Time \<Rightarrow> event list option"

fun eventLoop ::
  "timeParser \<Rightarrow> string \<Rightarrow> string \<Rightarrow> event list \<Rightarrow>
   timeSlot list \<times> busyTime list \<Rightarrow> timeSlot list \<times> busyTime list" where
  "eventLoop timeParse room calendarId [] acc = acc"
| "eventLoop timeParse room calendarId (ev # items) (allBusyTimes, busyDetails) =
     (if room \<noteq> [] \<and> \<not> Contains (ToLower (Location ev)) (ToLower room)
      then eventLoop timeParse room calendarId items (allBusyTimes, busyDetails)
      else if StartDateTime ev \<noteq> [] \<and> EndDateTime ev \<noteq> []
      then (let start = fst (timeParse (StartDateTime ev));
                end' = fst (timeParse (EndDateTime ev));
                organizer = (case OrganizerEmail ev of None \<Rightarrow> [] | Some email \<Rightarrow> email)
            in eventLoop timeParse room calendarId items
                 (allBusyTimes @ [\<lparr>Start = start, End = end'\<rparr>],
                  busyDetails @ [\<lparr>busyTime.Start = start, End = end', Summary = Summary ev,
                                  Organizer = organizer, CalendarId = calendarId\<rparr>]))
      else eventLoop timeParse room calendarId items (allBusyTimes, busyDetails))"

fun calendarLoop ::
  "timeParser \<Rightarrow> eventLister \<Rightarrow> string \<Rightarrow> Time \<Rightarrow> Time \<Rightarrow> string list \<Rightarrow>
   timeSlot list \<times> busyTime list \<Rightarrow> timeSlot list \<times> busyTime list" where
  "calendarLoop timeParse listEvents room startDate endDate [] acc = acc"
| "calendarLoop timeParse listEvents room startDate endDate (calendarId # rest) acc =
     (case listEvents calendarId startDate endDate of
        None \<Rightarrow> calendarLoop timeParse listEvents room startDate endDate rest acc
      | Some items \<Rightarrow>
          calendarLoop timeParse listEvents room startDate endDate rest
            (eventLoop timeParse room calendarId items acc))"

text \<open>
  The arguments of the tool after the type assertions of the handler: an argument that
  is absent or of another type is the zero value of its type.  The two numbers, which
  the source holds as \<^verbatim>\<open>float64\<close> and converts with \<^verbatim>\<open>int(_)\<close> and
  \<^verbatim>\<open>time.Duration(_)\<close>, are taken to be whole and small enough for these conversions
  and for the product with \<^verbatim>\<open>time.Minute\<close> to be exact.
\<close>

record arguments =
  guests :: string
  room :: string
  start_date :: string
  end_date :: string
  duration_minutes :: int
  working_hours_start :: string
  working_hours_end :: string
  max_results :: int

text \<open>
  What the handler hands to the YAML encoder, before the times are formatted.  The
  encoder is given maps of strings only, on which it does not fail; its error branch is
  left out.
\<close>

record findTimeSlotResult =
  available_slots :: "timeSlot list"
  result_duration_minutes :: int
  busy_times :: "busyTime list"
  guests_checked :: "string option"
  room_filter :: "string option"

datatype CallToolResult =
  NewToolResultError string
| NewToolResultText findTimeSlotResult

text \<open>
  The part of the handler that follows the construction of \<^verbatim>\<open>calendarsToCheck\<close>.
\<close>

definition findTimeSlotFor ::
  "timeParser \<Rightarrow> eventLister \<Rightarrow> arguments \<Rightarrow> Time \<Rightarrow> Time \<Rightarrow> string list \<Rightarrow> CallToolResult" where
  "findTimeSlotFor timeParse listEvents args startDate endDate calendarsToCheck =
     (let workingHoursStart =
            (if working_hours_start args = [] then ''09:00'' else working_hours_start args);
          workingHoursEnd =
            (if working_hours_end args = [] then ''17:00'' else working_hours_end args);
          maxResults = (if max_results args \<le> 0 then 5 else max_results args);
          collected = calendarLoop timeParse listEvents (room args) startDate endDate
                        calendarsToCheck ([], []);
          allBusyTimes = fst collected;
          busyDetails = snd collected;
          mergedBusyTimes = mergeTimeSlots allBusyTimes;
          availableSlots = findAvailableSlots startDate endDate mergedBusyTimes
                             (duration_minutes args * Minute)
                             workingHoursStart workingHoursEnd maxResults
      in NewToolResultText
           \<lparr>available_slots = availableSlots,
            result_duration_minutes = duration_minutes args,
            busy_times = busyDetails,
            guests_checked = (if guests args \<noteq> [] then Some (guests args) else None),
            room_filter = (if room args \<noteq> [] then Some (room args) else None)\<rparr>)"

definition calendarsToCheck :: "string \<Rightarrow> string list" where
  "calendarsToCheck guestsStr =
     ''primary'' # (if guestsStr \<noteq> [] then map TrimSpace (splitOn CHR '','' guestsStr) else [])"

definition calendarFindTimeSlotHandler ::
  "timeParser \<Rightarrow> eventLister \<Rightarrow> arguments \<Rightarrow> CallToolResult" where
  "calendarFindTimeSlotHandler timeParse listEvents args =
     (if \<not> snd (timeParse (start_date args))
      then NewToolResultError ''Invalid start_date format''
      else if \<not> snd (timeParse (end_date args))
      then NewToolResultError ''Invalid end_date format''
      else findTimeSlotFor timeParse listEvents args
             (fst (timeParse (start_date args))) (fst (timeParse (end_date args)))
             (calendarsToCheck (guests args)))"

section \<open>Notions used in the statements\<close>

text \<open>
  The working-hours window of the day of \<open>currentDate\<close> after the two clamps of the outer
  loop: its start is not before \<open>startDate\<close>, its end not after \<open>endDate\<close>.
\<close>

definition clampedStart :: "Time \<Rightarrow> Time \<Rightarrow> int \<Rightarrow> int \<Rightarrow> Time" where
  "clampedStart startDate currentDate hour minute =
     (if Date currentDate hour minute < startDate then startDate
      else Date currentDate hour minute)"

definition clampedEnd :: "Time \<Rightarrow> Time \<Rightarrow> int \<Rightarrow> int \<Rightarrow> Time" where
  "clampedEnd endDate currentDate hour minute =
     (if Date currentDate hour minute > endDate then endDate
      else Date currentDate hour minute)"

text \<open>
  A pair of hour and minute that is a time of day.
\<close>

definition timeOfDay :: "int \<times> int \<Rightarrow> bool" where
  "timeOfDay hm \<longleftrightarrow> 0 \<le> fst hm \<and> fst hm \<le> 23 \<and> 0 \<le> snd hm \<and> snd hm \<le> 59"

text \<open>
  The inputs of the examples: Monday 2024-01-01, 00:00, and the slots that the
  specification lists for that Monday with working hours 09:00 to 17:00, a duration of
  60 minutes and one busy interval from 10:00 to 11:00: the slot 09:00 to 10:00 and then
  the slots that start at 11:00, 11:30 and so on up to 16:00.
\<close>

definition exampleMonday :: Time where
  "exampleMonday = 19723 * Day"

definition exampleSlots :: "Time \<Rightarrow> timeSlot list" where
  "exampleSlots monday =
     \<lparr>Start = monday + 9 * Hour, End = monday + 10 * Hour\<rparr> #
     map (\<lambda>k. \<lparr>Start = monday + 11 * Hour + k * (30 * Minute),
               End = monday + 12 * Hour + k * (30 * Minute)\<rparr>) [0 .. 10]"

text \<open>
  Collaborators and arguments for the examples of the handler: a parser that knows a few
  instants of that Monday, and a calendar service that has one event for the primary
  calendar, one for bob@example.com, and fails for every other calendar.
\<close>

definition exampleTimeParse :: timeParser where
  "exampleTimeParse str =
     (if str = ''2024-01-01T00:00:00Z'' then (exampleMonday, True)
      else if str = ''2024-01-01T10:00:00Z'' then (exampleMonday + 10 * Hour, True)
      else if str = ''2024-01-01T11:00:00Z'' then (exampleMonday + 11 * Hour, True)
      else if str = ''2024-01-01T14:00:00Z'' then (exampleMonday + 14 * Hour, True)
      else if str = ''2024-01-01T15:00:00Z'' then (exampleMonday + 15 * Hour, True)
      else if str = ''2024-01-02T00:00:00Z'' then (exampleMonday + Day, True)
      else (- 62135596800000000000, False))"

definition exampleListEvents :: eventLister where
  "exampleListEvents calendarId startDate endDate =
     (if calendarId = ''primary''
      then Some [\<lparr>Location = ''Atlas'', StartDateTime = ''2024-01-01T10:00:00Z'',
                  EndDateTime = ''2024-01-01T11:00:00Z'', Summary = ''Standup'',
                  OrganizerEmail = Some ''me@example.com''\<rparr>]
      else if calendarId = ''bob@example.com''
      then Some [\<lparr>Location = ''Boreas'', StartDateTime = ''2024-01-01T14:00:00Z'',
                  EndDateTime = ''2024-01-01T15:00:00Z'', Summary = ''Review'',
                  OrganizerEmail = None\<rparr>]
      else None)"

definition exampleArguments :: arguments where
  "exampleArguments =
     \<lparr>guests = ''alice@example.com, bob@example.com'', room = [],
      start_date = ''2024-01-01T00:00:00Z'', end_date = ''2024-01-02T00:00:00Z'',
      duration_minutes = 60, working_hours_start = [], working_hours_end = [],
      max_results = 2\<rparr>"

text \<open>
  What the aggregation is to collect, in the words of the specification.  An event
  qualifies when it passes the room filter and carries both a start and an end instant.
  Each qualifying event of a calendar that could be read contributes one interval and
  one detail record, in the order of the calendars and of their events; a calendar that
  could not be read contributes nothing.
\<close>

definition qualifies :: "string \<Rightarrow> event \<Rightarrow> bool" where
  "qualifies roomFilter ev \<longleftrightarrow>
     (roomFilter = [] \<or> Contains (ToLower (Location ev)) (ToLower roomFilter)) \<and>
     StartDateTime ev \<noteq> [] \<and> EndDateTime ev \<noteq> []"

definition eventSlot :: "timeParser \<Rightarrow> event \<Rightarrow> timeSlot" where
  "eventSlot timeParse ev =
     \<lparr>Start = fst (timeParse (StartDateTime ev)), End = fst (timeParse (EndDateTime ev))\<rparr>"

definition eventDetail :: "timeParser \<Rightarrow> string \<Rightarrow> event \<Rightarrow> busyTime" where
  "eventDetail timeParse calendarId ev =
     \<lparr>busyTime.Start = fst (timeParse (StartDateTime ev)),
      End = fst (timeParse (EndDateTime ev)),
      Summary = Summary ev,
      Organizer = (case OrganizerEmail ev of None \<Rightarrow> [] | Some email \<Rightarrow> email),
      CalendarId = calendarId\<rparr>"

definition readable :: "eventLister \<Rightarrow> Time \<Rightarrow> Time \<Rightarrow> string \<Rightarrow> bool" where
  "readable listEvents startDate endDate calendarId \<longleftrightarrow>
     listEvents calendarId startDate endDate \<noteq> None"

definition eventsOf :: "eventLister \<Rightarrow> Time \<Rightarrow> Time \<Rightarrow> string \<Rightarrow> event list" where
  "eventsOf listEvents startDate endDate calendarId =
     (case listEvents calendarId startDate endDate of None \<Rightarrow> [] | Some items \<Rightarrow> items)"

definition busySlotsOf ::
  "timeParser \<Rightarrow> eventLister \<Rightarrow> string \<Rightarrow> Time \<Rightarrow> Time \<Rightarrow> string list \<Rightarrow> timeSlot list" where
  "busySlotsOf timeParse listEvents roomFilter startDate endDate calendars =
     concat (map (\<lambda>c. map (eventSlot timeParse)
                         (filter (qualifies roomFilter) (eventsOf listEvents startDate endDate c)))
               (filter (readable listEvents startDate endDate) calendars))"

definition busyDetailsOf ::
  "timeParser \<Rightarrow> eventLister \<Rightarrow> string \<Rightarrow> Time \<Rightarrow> Time \<Rightarrow> string list \<Rightarrow> busyTime list" where
  "busyDetailsOf timeParse listEvents roomFilter startDate endDate calendars =
     concat (map (\<lambda>c. map (eventDetail timeParse c)
                         (filter (qualifies roomFilter) (eventsOf listEvents startDate endDate c)))
               (filter (readable listEvents startDate endDate) calendars))"

text \<open>
  The invariant of the outer loop of the sort: the first \<open>i\<close> positions are in order and
  hold nothing that starts after a slot of the remaining positions.
\<close>

definition sortInv :: "timeSlot list \<Rightarrow> nat \<Rightarrow> bool" where
  "sortInv xs i \<longleftrightarrow> sorted (map Start (take i xs)) \<and>
     (\<forall>a\<in>set (take i xs). \<forall>b\<in>set (drop i xs). Start a \<le> Start b)"


text \<open>
  The time points that a collection of intervals covers, with half-open and with closed
  intervals.
\<close>

definition covered :: "timeSlot list \<Rightarrow> Time set" where
  "covered slots = (\<Union>s\<in>set slots. {Start s ..< End s})"

definition coveredClosed :: "timeSlot list \<Rightarrow> Time set" where
  "coveredClosed slots = (\<Union>s\<in>set slots. {Start s .. End s})"

text \<open>
  A slot as the contract of the search describes it: exactly \<open>duration\<close> long, inside
  the working hours of its own day, that day being neither Saturday nor Sunday, inside
  the requested range, and without any overlap with a busy interval.
\<close>

definition overlaps :: "timeSlot \<Rightarrow> timeSlot \<Rightarrow> bool" where
  "overlaps s b \<longleftrightarrow> Start s < End b \<and> End s > Start b"

definition validSlot ::
  "Time \<Rightarrow> Time \<Rightarrow> timeSlot list \<Rightarrow> Duration \<Rightarrow> int \<times> int \<Rightarrow> int \<times> int \<Rightarrow> timeSlot \<Rightarrow> bool" where
  "validSlot startDate endDate busySlots duration workStart workEnd s \<longleftrightarrow>
     End s = Start s + duration \<and>
     Weekday (Start s) \<noteq> Saturday \<and> Weekday (Start s) \<noteq> Sunday \<and>
     End s div Day = Start s div Day \<and>
     Date (Start s) (fst workStart) (snd workStart) \<le> Start s \<and>
     End s \<le> Date (Start s) (fst workEnd) (snd workEnd) \<and>
     startDate \<le> Start s \<and> End s \<le> endDate \<and>
     list_all (\<lambda>b. \<not> overlaps s b) busySlots"

section \<open>The sort and the scan of the merge\<close>

lemma sortInner_nth_before:
  "i < j \<Longrightarrow> k < i \<Longrightarrow> sortInner xs i j ! k = xs ! k"
proof (induction xs i j rule: sortInner.induct)
  case (1 slots i j)
  show ?case
  proof (cases "j < length slots")
    case True
    have "sortInner slots i j ! k =
          (if Start (slots ! i) > Start (slots ! j)
           then slots[i := slots ! j, j := slots ! i] else slots) ! k"
      using "1.IH"[OF True] "1.prems" True by (subst sortInner.simps) simp
    also have "\<dots> = slots ! k" using "1.prems" by simp
    finally show ?thesis .
  next
    case False
    then show ?thesis by (subst sortInner.simps) simp
  qed
qed

lemma mset_sortInner:
  "i < length xs \<Longrightarrow> mset (sortInner xs i j) = mset xs"
proof (induction xs i j rule: sortInner.induct)
  case (1 slots i j)
  show ?case
  proof (cases "j < length slots")
    case True
    let ?ys = "if Start (slots ! i) > Start (slots ! j)
           then slots[i := slots ! j, j := slots ! i] else slots"
    have len: "length ?ys = length slots" by simp
    have "sortInner slots i j = sortInner ?ys i (j + 1)"
      using True by (subst sortInner.simps) simp
    also have "mset \<dots> = mset ?ys"
      using "1.IH"[OF True] "1.prems" len by simp
    also have "\<dots> = mset slots"
      using True "1.prems" by (simp add: mset_swap)
    finally show ?thesis .
  next
    case False
    then show ?thesis by (subst sortInner.simps) simp
  qed
qed

lemma sortInner_least:
  "i < j \<Longrightarrow> \<forall>k. i < k \<and> k < j \<longrightarrow> Start (xs ! i) \<le> Start (xs ! k) \<Longrightarrow>
   i < k \<Longrightarrow> k < length xs \<Longrightarrow>
   Start (sortInner xs i j ! i) \<le> Start (sortInner xs i j ! k)"
proof (induction xs i j rule: sortInner.induct)
  case (1 slots i j)
  show ?case
  proof (cases "j < length slots")
    case True
    let ?ys = "if Start (slots ! i) > Start (slots ! j)
           then slots[i := slots ! j, j := slots ! i] else slots"
    have len: "length ?ys = length slots" by simp
    have eq: "sortInner slots i j = sortInner ?ys i (j + 1)"
      using True by (subst sortInner.simps) simp
    have inv: "\<forall>k. i < k \<and> k < j + 1 \<longrightarrow> Start (?ys ! i) \<le> Start (?ys ! k)"
    proof (intro allI impI)
      fix k assume k: "i < k \<and> k < j + 1"
      show "Start (?ys ! i) \<le> Start (?ys ! k)"
      proof (cases "k = j")
        case True
        then show ?thesis using \<open>j < length slots\<close> "1.prems"(1) by auto
      next
        case False
        with k have kj: "i < k" "k < j" by auto
        with "1.prems"(2) have "Start (slots ! i) \<le> Start (slots ! k)" by blast
        then show ?thesis using kj True "1.prems"(1) by auto
      qed
    qed
    show ?thesis
      unfolding eq
      using "1.IH"[OF True _ inv] "1.prems" len by simp
  next
    case False
    then show ?thesis using "1.prems" by (subst (1 2) sortInner.simps) auto
  qed
qed

lemma take_sortInner:
  assumes "i < j" shows "take i (sortInner xs i j) = take i xs"
  by (rule nth_equalityI) (use assms in \<open>auto simp: sortInner_nth_before\<close>)

lemma mset_drop_sortInner:
  assumes "i < j" "i < length xs"
  shows "mset (drop i (sortInner xs i j)) = mset (drop i xs)"
proof -
  have "mset (take i (sortInner xs i j)) + mset (drop i (sortInner xs i j)) =
        mset (take i xs) + mset (drop i xs)"
    using mset_sortInner[OF assms(2), of j]
    by (metis append_take_drop_id mset_append)
  then show ?thesis using take_sortInner[OF assms(1)] by simp
qed

lemma sortInv_step:
  assumes inv: "sortInv xs i" and i: "i < length xs"
  shows "sortInv (sortInner xs i (i + 1)) (i + 1)"
proof -
  let ?ys = "sortInner xs i (i + 1)"
  have tk: "take i ?ys = take i xs" by (simp add: take_sortInner)
  have dr: "mset (drop i ?ys) = mset (drop i xs)"
    using i by (simp add: mset_drop_sortInner)
  then have sdr: "set (drop i ?ys) = set (drop i xs)" by (rule mset_eq_setD)
  have len: "length ?ys = length xs" by simp
  have tk1: "take (i + 1) ?ys = take i xs @ [?ys ! i]"
    using i len tk by (metis Suc_eq_plus1 take_Suc_conv_app_nth)
  have dr1: "drop i ?ys = ?ys ! i # drop (i + 1) ?ys"
    using i len by (metis Cons_nth_drop_Suc Suc_eq_plus1)
  have yi: "?ys ! i \<in> set (drop i xs)" using sdr dr1 by (metis list.set_intros(1))
  have least: "\<forall>b\<in>set (drop (i + 1) ?ys). Start (?ys ! i) \<le> Start b"
  proof
    fix b assume "b \<in> set (drop (i + 1) ?ys)"
    then obtain k where k: "k < length ?ys - (i + 1)" "b = ?ys ! (i + 1 + k)"
      by (auto simp: in_set_conv_nth)
    have "Start (?ys ! i) \<le> Start (?ys ! (i + 1 + k))"
      by (rule sortInner_least) (use k len in auto)
    then show "Start (?ys ! i) \<le> Start b" using k by simp
  qed
  have s1: "sorted (map Start (take (i + 1) ?ys))"
    using inv yi unfolding tk1 sortInv_def by (auto simp: sorted_append)
  have s2: "\<forall>a\<in>set (take (i + 1) ?ys). \<forall>b\<in>set (drop (i + 1) ?ys). Start a \<le> Start b"
  proof (intro ballI)
    fix a b assume a: "a \<in> set (take (i + 1) ?ys)" and b: "b \<in> set (drop (i + 1) ?ys)"
    from b have b': "b \<in> set (drop i xs)" using sdr dr1 by (metis list.set_intros(2))
    from a have "a \<in> set (take i xs) \<or> a = ?ys ! i" unfolding tk1 by auto
    then show "Start a \<le> Start b"
      using inv b' least b unfolding sortInv_def by auto
  qed
  show ?thesis unfolding sortInv_def using s1 s2 by simp
qed

lemma sortOuter_sorted_aux:
  "sortInv xs i \<Longrightarrow> i \<le> length xs \<Longrightarrow>
   sorted (map Start (sortOuter xs i)) \<and> mset (sortOuter xs i) = mset xs"
proof (induction xs i rule: sortOuter.induct)
  case (1 slots i)
  show ?case
  proof (cases "i < length slots")
    case True
    have "sortOuter slots i = sortOuter (sortInner slots i (i + 1)) (i + 1)"
      using True by (subst sortOuter.simps) simp
    moreover have "sorted (map Start (sortOuter (sortInner slots i (i + 1)) (i + 1))) \<and>
       mset (sortOuter (sortInner slots i (i + 1)) (i + 1)) = mset (sortInner slots i (i + 1))"
      using "1.IH"[OF True sortInv_step[OF "1.prems"(1) True]] True by simp
    ultimately show ?thesis using True by (simp add: mset_sortInner)
  next
    case False
    with "1.prems" have "i = length slots" by simp
    with "1.prems"(1) show ?thesis
      by (subst (1 2) sortOuter.simps) (simp add: sortInv_def)
  qed
qed

lemma sortOuter_sorted: "sorted (map Start (sortOuter xs 0))"
  and mset_sortOuter: "mset (sortOuter xs 0) = mset xs"
  using sortOuter_sorted_aux[of xs 0] by (simp_all add: sortInv_def)

section \<open>Properties of the merge\<close>

lemma covered_simps [simp]:
  "covered [] = {}"
  "covered (s # xs) = {Start s ..< End s} \<union> covered xs"
  "covered (xs @ ys) = covered xs \<union> covered ys"
  by (auto simp: covered_def)

lemma coveredClosed_simps [simp]:
  "coveredClosed [] = {}"
  "coveredClosed (s # xs) = {Start s .. End s} \<union> coveredClosed xs"
  "coveredClosed (xs @ ys) = coveredClosed xs \<union> coveredClosed ys"
  by (auto simp: coveredClosed_def)

lemma mergeLoop_wf:
  "\<forall>s\<in>set (ms @ l # rest). Start s \<le> End s \<Longrightarrow>
   sorted_wrt (\<lambda>a b. End a < Start b) (ms @ [l]) \<Longrightarrow>
   sorted (map Start (l # rest)) \<Longrightarrow>
   sorted_wrt (\<lambda>a b. End a < Start b) (mergeLoop (ms @ [l]) rest) \<and>
   (\<forall>s\<in>set (mergeLoop (ms @ [l]) rest). Start s \<le> End s) \<and>
   covered (mergeLoop (ms @ [l]) rest) = covered (ms @ l # rest) \<and>
   coveredClosed (mergeLoop (ms @ [l]) rest) = coveredClosed (ms @ l # rest)"
proof (induction rest arbitrary: ms l)
  case Nil
  then show ?case by simp
next
  case (Cons s rest)
  from Cons.prems have wf: "Start l \<le> End l" "Start s \<le> End s"
    and ls: "Start l \<le> Start s" by auto
  show ?case
  proof (cases "Start s < End l \<or> Start s = End l")
    case touch: True
    show ?thesis
    proof (cases "End s > End l")
      case True
      let ?l = "l\<lparr>End := End s\<rparr>"
      have step: "mergeLoop (ms @ [l]) (s # rest) = mergeLoop (ms @ [?l]) rest"
        using touch True by simp
      have a: "\<forall>x\<in>set (ms @ ?l # rest). Start x \<le> End x"
        using Cons.prems(1) ls wf by auto
      have b: "sorted_wrt (\<lambda>a b. End a < Start b) (ms @ [?l])"
        using Cons.prems(2) by (auto simp: sorted_wrt_append)
      have c: "sorted (map Start (?l # rest))"
        using Cons.prems(3) by auto
      have cov: "{Start l ..< End s} = {Start l ..< End l} \<union> {Start s ..< End s}"
        using touch True ls by auto
      have covc: "{Start l .. End s} = {Start l .. End l} \<union> {Start s .. End s}"
        using touch True ls by auto
      show ?thesis unfolding step using Cons.IH[OF a b c] cov covc by auto
    next
      case False
      have step: "mergeLoop (ms @ [l]) (s # rest) = mergeLoop (ms @ [l]) rest"
        using touch False by simp
      have a: "\<forall>x\<in>set (ms @ l # rest). Start x \<le> End x"
        using Cons.prems(1) by auto
      have c: "sorted (map Start (l # rest))"
        using Cons.prems(3) by auto
      have cov: "{Start s ..< End s} \<subseteq> {Start l ..< End l}"
        using False ls by auto
      have covc: "{Start s .. End s} \<subseteq> {Start l .. End l}"
        using False ls by auto
      show ?thesis unfolding step using Cons.IH[OF a Cons.prems(2) c] cov covc by auto
    qed
  next
    case False
    have step: "mergeLoop (ms @ [l]) (s # rest) = mergeLoop ((ms @ [l]) @ [s]) rest"
      using False by simp
    have a: "\<forall>x\<in>set ((ms @ [l]) @ s # rest). Start x \<le> End x"
      using Cons.prems(1) by auto
    have b: "sorted_wrt (\<lambda>a b. End a < Start b) ((ms @ [l]) @ [s])"
      using Cons.prems(2) False ls by (fastforce simp: sorted_wrt_append)
    have c: "sorted (map Start (s # rest))"
      using Cons.prems(3) by auto
    show ?thesis unfolding step using Cons.IH[OF a b c] by auto
  qed
qed

lemma mergeTimeSlots_wf:
  assumes wf: "\<forall>s\<in>set slots. Start s \<le> End s"
  shows "sorted_wrt (\<lambda>a b. End a < Start b) (mergeTimeSlots slots) \<and>
   (\<forall>s\<in>set (mergeTimeSlots slots). Start s \<le> End s) \<and>
   covered (mergeTimeSlots slots) = covered slots \<and>
   coveredClosed (mergeTimeSlots slots) = coveredClosed slots"
proof (cases "slots = []")
  case True
  then show ?thesis by (simp add: mergeTimeSlots_def)
next
  case False
  let ?xs = "sortOuter slots 0"
  have m: "mset ?xs = mset slots" by (rule mset_sortOuter)
  then have st: "set ?xs = set slots" by (rule mset_eq_setD)
  from m have "length ?xs = length slots" by (rule mset_eq_length)
  with False have ne: "?xs \<noteq> []" by auto
  then have xs: "?xs = (?xs ! 0) # drop 1 ?xs"
    by (cases ?xs) auto
  have a: "\<forall>s\<in>set ([] @ (?xs ! 0) # drop 1 ?xs). Start s \<le> End s"
    using wf st xs by (metis append_Nil)
  have c: "sorted (map Start ((?xs ! 0) # drop 1 ?xs))"
    using sortOuter_sorted[of slots] xs by metis
  have cv: "covered ?xs = covered slots" "coveredClosed ?xs = coveredClosed slots"
    using st by (simp_all add: covered_def coveredClosed_def)
  have "mergeTimeSlots slots = mergeLoop ([] @ [?xs ! 0]) (drop 1 ?xs)"
    using False by (simp add: mergeTimeSlots_def Let_def)
  then show ?thesis
    using mergeLoop_wf[OF a _ c] cv xs by (metis append_Nil sorted_wrt1)
qed

lemma sortInner_sorted_id:
  "sorted (map Start xs) \<Longrightarrow> i < j \<Longrightarrow> sortInner xs i j = xs"
proof (induction xs i j rule: sortInner.induct)
  case (1 slots i j)
  show ?case
  proof (cases "j < length slots")
    case True
    have "Start (slots ! i) \<le> Start (slots ! j)"
      using sorted_nth_mono[OF "1.prems"(1), of i j] True "1.prems"(2) by simp
    then have "(if Start (slots ! i) > Start (slots ! j)
           then slots[i := slots ! j, j := slots ! i] else slots) = slots" by simp
    then show ?thesis
      using "1.IH"[OF True] "1.prems" True by (subst sortInner.simps) simp
  next
    case False
    then show ?thesis by (subst sortInner.simps) simp
  qed
qed

lemma sortOuter_sorted_id:
  "sorted (map Start xs) \<Longrightarrow> sortOuter xs i = xs"
proof (induction xs i rule: sortOuter.induct)
  case (1 slots i)
  show ?case
  proof (cases "i < length slots")
    case True
    then show ?thesis
      using "1.IH"[OF True] "1.prems"
      by (subst sortOuter.simps) (simp add: sortInner_sorted_id)
  next
    case False
    then show ?thesis by (subst sortOuter.simps) simp
  qed
qed

lemma mergeLoop_gapped:
  "successively (\<lambda>a b. End a < Start b) (ms @ [l]) \<Longrightarrow>
   sorted (map Start (ms @ l # rest)) \<Longrightarrow>
   successively (\<lambda>a b. End a < Start b) (mergeLoop (ms @ [l]) rest) \<and>
   sorted (map Start (mergeLoop (ms @ [l]) rest))"
proof (induction rest arbitrary: ms l)
  case Nil
  then show ?case by simp
next
  case (Cons s rest)
  show ?case
  proof (cases "Start s < End l \<or> Start s = End l")
    case touch: True
    show ?thesis
    proof (cases "End s > End l")
      case True
      let ?l = "l\<lparr>End := End s\<rparr>"
      have step: "mergeLoop (ms @ [l]) (s # rest) = mergeLoop (ms @ [?l]) rest"
        using touch True by simp
      have b: "successively (\<lambda>a b. End a < Start b) (ms @ [?l])"
        using Cons.prems(1) by (auto simp: successively_append_iff)
      have c: "sorted (map Start (ms @ ?l # rest))"
        using Cons.prems(2) by (auto simp: sorted_append)
      show ?thesis unfolding step using Cons.IH[OF b c] .
    next
      case False
      have step: "mergeLoop (ms @ [l]) (s # rest) = mergeLoop (ms @ [l]) rest"
        using touch False by simp
      have c: "sorted (map Start (ms @ l # rest))"
        using Cons.prems(2) by (auto simp: sorted_append)
      show ?thesis unfolding step using Cons.IH[OF Cons.prems(1) c] .
    qed
  next
    case False
    have step: "mergeLoop (ms @ [l]) (s # rest) = mergeLoop ((ms @ [l]) @ [s]) rest"
      using False by simp
    have b: "successively (\<lambda>a b. End a < Start b) ((ms @ [l]) @ [s])"
      using Cons.prems(1) False by (auto simp: successively_append_iff)
    have c: "sorted (map Start ((ms @ [l]) @ s # rest))"
      using Cons.prems(2) by simp
    show ?thesis unfolding step using Cons.IH[OF b c] .
  qed
qed

lemma mergeLoop_gapped_id:
  "successively (\<lambda>a b. End a < Start b) (l # rest) \<Longrightarrow>
   mergeLoop (ms @ [l]) rest = ms @ l # rest"
proof (induction rest arbitrary: ms l)
  case Nil
  then show ?case by simp
next
  case (Cons s rest)
  from Cons.prems have gap: "End l < Start s"
    and rest: "successively (\<lambda>a b. End a < Start b) (s # rest)" by auto
  have "mergeLoop (ms @ [l]) (s # rest) = mergeLoop ((ms @ [l]) @ [s]) rest"
    using gap by simp
  also have "\<dots> = (ms @ [l]) @ s # rest" by (rule Cons.IH[OF rest])
  finally show ?case by simp
qed

lemma mergeTimeSlots_gapped_id:
  assumes "successively (\<lambda>a b. End a < Start b) slots" "sorted (map Start slots)"
  shows "mergeTimeSlots slots = slots"
proof (cases slots)
  case Nil
  then show ?thesis by (simp add: mergeTimeSlots_def)
next
  case (Cons l rest)
  have "sortOuter slots 0 = slots" by (rule sortOuter_sorted_id[OF assms(2)])
  then have "mergeTimeSlots slots = mergeLoop ([] @ [l]) rest"
    using Cons by (simp add: mergeTimeSlots_def)
  also have "\<dots> = [] @ l # rest"
    by (rule mergeLoop_gapped_id) (use assms(1) Cons in simp)
  finally show ?thesis using Cons by simp
qed

lemma mergeTimeSlots_gapped:
  "successively (\<lambda>a b. End a < Start b) (mergeTimeSlots slots) \<and>
   sorted (map Start (mergeTimeSlots slots))"
proof (cases "slots = []")
  case True
  then show ?thesis by (simp add: mergeTimeSlots_def)
next
  case False
  let ?xs = "sortOuter slots 0"
  have "length ?xs = length slots" using mset_sortOuter[of slots] by (rule mset_eq_length)
  with False have ne: "?xs \<noteq> []" by auto
  then have xs: "?xs = (?xs ! 0) # drop 1 ?xs"
    by (cases ?xs) auto
  have c: "sorted (map Start ([] @ (?xs ! 0) # drop 1 ?xs))"
    using sortOuter_sorted[of slots] xs by (metis append_Nil)
  have "mergeTimeSlots slots = mergeLoop ([] @ [?xs ! 0]) (drop 1 ?xs)"
    using False by (simp add: mergeTimeSlots_def Let_def)
  then show ?thesis
    using mergeLoop_gapped[OF _ c] by simp
qed


text \<open>
  C2: for every collection of intervals with start \<open>\<le>\<close> end, \<open>mergeTimeSlots\<close> returns a
  collection that is sorted by start time, whose intervals are pairwise disjoint and do
  not even touch (each ends strictly before every later one starts), and that covers the
  same time points as the input, with half-open as with closed intervals.  Two intervals
  that touch at 10:00 become one; two intervals with a gap between them stay apart.
\<close>

theorem mergeTimeSlots_sorted_disjoint_cover:
  assumes "\<forall>s\<in>set slots. Start s \<le> End s"
  shows "sorted_wrt (\<lambda>a b. Start a < Start b) (mergeTimeSlots slots) \<and>
     sorted_wrt (\<lambda>a b. End a < Start b) (mergeTimeSlots slots) \<and>
     (\<forall>s\<in>set (mergeTimeSlots slots). Start s \<le> End s) \<and>
     covered (mergeTimeSlots slots) = covered slots \<and>
     coveredClosed (mergeTimeSlots slots) = coveredClosed slots \<and>
     mergeTimeSlots [\<lparr>Start = 9 * Hour, End = 10 * Hour\<rparr>, \<lparr>Start = 10 * Hour, End = 11 * Hour\<rparr>]
       = [\<lparr>Start = 9 * Hour, End = 11 * Hour\<rparr>] \<and>
     mergeTimeSlots [\<lparr>Start = 9 * Hour, End = 10 * Hour\<rparr>,
                     \<lparr>Start = 10 * Hour + 30 * Minute, End = 11 * Hour\<rparr>]
       = [\<lparr>Start = 9 * Hour, End = 10 * Hour\<rparr>,
          \<lparr>Start = 10 * Hour + 30 * Minute, End = 11 * Hour\<rparr>]"
proof -
  let ?m = "mergeTimeSlots slots"
  note wf = mergeTimeSlots_wf[OF assms]
  have gap: "sorted_wrt (\<lambda>a b. End a < Start b) ?m" using wf by simp
  have ok: "\<forall>s\<in>set ?m. Start s \<le> End s" using wf by simp
  have "sorted_wrt (\<lambda>a b. Start a < Start b) ?m"
    by (rule sorted_wrt_mono_rel[OF _ gap]) (use ok in force)
  moreover have "mergeTimeSlots [\<lparr>Start = 9 * Hour, End = 10 * Hour\<rparr>,
         \<lparr>Start = 10 * Hour, End = 11 * Hour\<rparr>] = [\<lparr>Start = 9 * Hour, End = 11 * Hour\<rparr>]"
    by (simp add: mergeTimeSlots_def sortOuter.simps sortInner.simps Hour_def Minute_def)
  moreover have "mergeTimeSlots [\<lparr>Start = 9 * Hour, End = 10 * Hour\<rparr>,
                     \<lparr>Start = 10 * Hour + 30 * Minute, End = 11 * Hour\<rparr>]
       = [\<lparr>Start = 9 * Hour, End = 10 * Hour\<rparr>,
          \<lparr>Start = 10 * Hour + 30 * Minute, End = 11 * Hour\<rparr>]"
    by (simp add: mergeTimeSlots_def sortOuter.simps sortInner.simps Hour_def Minute_def)
  ultimately show ?thesis using wf by simp
qed

theorem mergeTimeSlots_sorted_disjoint_cover_witness:
  "list_all (\<lambda>s. Start s \<le> End s)
      [\<lparr>Start = 13, End = 14\<rparr>, \<lparr>Start = 10, End = 11\<rparr>, \<lparr>Start = 9, End = 10\<rparr>,
        \<lparr>Start = 9, End = 9\<rparr>] \<and>
   mergeTimeSlots [\<lparr>Start = 13, End = 14\<rparr>, \<lparr>Start = 10, End = 11\<rparr>, \<lparr>Start = 9, End = 10\<rparr>,
        \<lparr>Start = 9, End = 9\<rparr>] = [\<lparr>Start = 9, End = 11\<rparr>, \<lparr>Start = 13, End = 14\<rparr>] \<and>
   covered [\<lparr>Start = 9, End = 11\<rparr>, \<lparr>Start = 13, End = 14\<rparr>] =
   covered [\<lparr>Start = 13, End = 14\<rparr>, \<lparr>Start = 10, End = 11\<rparr>, \<lparr>Start = 9, End = 10\<rparr>,
        \<lparr>Start = 9, End = 9\<rparr>]"
proof -
  let ?xs = "[\<lparr>Start = 13, End = 14\<rparr>, \<lparr>Start = 10, End = 11\<rparr>, \<lparr>Start = 9, End = 10\<rparr>,
        \<lparr>Start = 9, End = 9\<rparr>]"
  have h: "\<forall>s\<in>set ?xs. Start s \<le> End s" by simp
  have m: "mergeTimeSlots ?xs = [\<lparr>Start = 9, End = 11\<rparr>, \<lparr>Start = 13, End = 14\<rparr>]"
    by (simp add: mergeTimeSlots_def sortOuter.simps sortInner.simps)
  show ?thesis
    using h m mergeTimeSlots_sorted_disjoint_cover[OF h] by simp
qed

text \<open>
  C7: merging is idempotent, for every collection of intervals.  In particular a
  collection that is already merged, that is, sorted by start with its intervals
  pairwise disjoint as closed intervals, is returned unchanged.
\<close>

theorem mergeTimeSlots_idempotent:
  "mergeTimeSlots (mergeTimeSlots slots) = mergeTimeSlots slots \<and>
   ((\<forall>s\<in>set merged. Start s \<le> End s) \<and> sorted (map Start merged) \<and>
    sorted_wrt (\<lambda>a b. {Start a .. End a} \<inter> {Start b .. End b} = {}) merged
    \<longrightarrow> mergeTimeSlots merged = merged)"
proof (intro conjI impI)
  show "mergeTimeSlots (mergeTimeSlots slots) = mergeTimeSlots slots"
    using mergeTimeSlots_gapped[of slots] by (simp add: mergeTimeSlots_gapped_id)
next
  assume h: "(\<forall>s\<in>set merged. Start s \<le> End s) \<and> sorted (map Start merged) \<and>
    sorted_wrt (\<lambda>a b. {Start a .. End a} \<inter> {Start b .. End b} = {}) merged"
  have "sorted_wrt (\<lambda>a b. End a < Start b) merged"
    using h
  proof (induction merged)
    case Nil
    then show ?case by simp
  next
    case (Cons a merged)
    have "End a < Start b" if "b \<in> set merged" for b
    proof -
      have ab: "Start a \<le> Start b" and wb: "Start b \<le> End b"
        using Cons.prems that by auto
      have "sorted_wrt (\<lambda>a b. {Start a .. End a} \<inter> {Start b .. End b} = {}) (a # merged)"
        using Cons.prems by blast
      then have "{Start a .. End a} \<inter> {Start b .. End b} = {}"
        using that unfolding sorted_wrt.simps by blast
      then have "Start b \<notin> {Start a .. End a} \<or> Start b \<notin> {Start b .. End b}"
        by blast
      then show ?thesis using ab wb by simp
    qed
    then show ?case using Cons by simp
  qed
  then have "successively (\<lambda>a b. End a < Start b) merged"
    by (rule successively_if_sorted_wrt)
  then show "mergeTimeSlots merged = merged"
    using h by (simp add: mergeTimeSlots_gapped_id)
qed

theorem mergeTimeSlots_idempotent_witness:
  "(list_all (\<lambda>s. Start s \<le> End s) [\<lparr>Start = 9, End = 11\<rparr>, \<lparr>Start = 13, End = 14\<rparr>] \<and>
    sorted (map Start [\<lparr>Start = 9, End = 11\<rparr>, \<lparr>Start = 13, End = 14\<rparr>]) \<and>
    sorted_wrt (\<lambda>a b. {Start a .. End a} \<inter> {Start b .. End b} = {})
      [\<lparr>Start = 9, End = 11\<rparr>, \<lparr>Start = 13, End = 14\<rparr>]) \<and>
   mergeTimeSlots [\<lparr>Start = 9, End = 11\<rparr>, \<lparr>Start = 13, End = 14\<rparr>]
     = [\<lparr>Start = 9, End = 11\<rparr>, \<lparr>Start = 13, End = 14\<rparr>] \<and>
   mergeTimeSlots (mergeTimeSlots [\<lparr>Start = 10, End = 11\<rparr>, \<lparr>Start = 9, End = 10\<rparr>])
     = mergeTimeSlots [\<lparr>Start = 10, End = 11\<rparr>, \<lparr>Start = 9, End = 10\<rparr>]"
proof -
  let ?m = "[\<lparr>Start = 9, End = 11\<rparr>, \<lparr>Start = 13, End = 14\<rparr>]"
  have h: "(\<forall>s\<in>set ?m. Start s \<le> End s) \<and> sorted (map Start ?m) \<and>
    sorted_wrt (\<lambda>a b. {Start a .. End a} \<inter> {Start b .. End b} = {}) ?m"
    by simp
  note idem = mergeTimeSlots_idempotent[of "[\<lparr>Start = 10, End = 11\<rparr>, \<lparr>Start = 9, End = 10\<rparr>]" ?m]
  have 1: "mergeTimeSlots ?m = ?m" using h idem by blast
  have 2: "mergeTimeSlots (mergeTimeSlots [\<lparr>Start = 10, End = 11\<rparr>, \<lparr>Start = 9, End = 10\<rparr>])
     = mergeTimeSlots [\<lparr>Start = 10, End = 11\<rparr>, \<lparr>Start = 9, End = 10\<rparr>]"
    using idem by blast
  show ?thesis using 1 2 by simp
qed

section \<open>The loops of the slot search\<close>

lemma checkBusy_fst_snd:
  "fst (checkBusy ct se busy) \<Longrightarrow> snd (checkBusy ct se busy) = ct"
  using checkBusy_available[of ct se busy "snd (checkBusy ct se busy)"]
  by (cases "checkBusy ct se busy") auto

lemma checkBusy_advance:
  "\<not> fst (checkBusy ct se busy) \<Longrightarrow> ct < snd (checkBusy ct se busy)"
  using checkBusy_conflict[of ct se busy "snd (checkBusy ct se busy)"]
  by (cases "checkBusy ct se busy") auto

lemma checkBusy_free:
  "fst (checkBusy ct se busy) \<Longrightarrow> b \<in> set busy \<Longrightarrow> \<not> (ct < End b \<and> se > Start b)"
  by (induction busy) (auto split: if_splits)

lemma dayLoop_unfold:
  "dayLoop dayEnd busy d m ct acc =
     (if ct + d \<le> dayEnd
      then (if fst (checkBusy ct (ct + d) busy)
            then (if m \<le> int (length acc) + 1 then acc @ [\<lparr>Start = ct, End = ct + d\<rparr>]
                  else dayLoop dayEnd busy d m (ct + 30 * Minute)
                         (acc @ [\<lparr>Start = ct, End = ct + d\<rparr>]))
            else dayLoop dayEnd busy d m (snd (checkBusy ct (ct + d) busy)) acc)
      else acc)"
proof (cases "fst (checkBusy ct (ct + d) busy)")
  case True
  then show ?thesis
    by (subst dayLoop.simps) (auto simp: Let_def checkBusy_fst_snd)
next
  case False
  then show ?thesis
    by (subst dayLoop.simps) (auto simp: Let_def)
qed

lemma dayLoop_induct [consumes 0, case_names step]:
  assumes step: "\<And>ct acc.
      (ct + d \<le> dayEnd \<Longrightarrow> fst (checkBusy ct (ct + d) busy) \<Longrightarrow>
         \<not> m \<le> int (length acc) + 1 \<Longrightarrow>
         P (ct + 30 * Minute) (acc @ [\<lparr>Start = ct, End = ct + d\<rparr>])) \<Longrightarrow>
      (ct + d \<le> dayEnd \<Longrightarrow> \<not> fst (checkBusy ct (ct + d) busy) \<Longrightarrow>
         P (snd (checkBusy ct (ct + d) busy)) acc) \<Longrightarrow>
      P ct acc"
  shows "P ct acc"
proof -
  have "de = dayEnd \<Longrightarrow> b = busy \<Longrightarrow> dd = d \<Longrightarrow> mm = m \<Longrightarrow> P ct acc" for de b dd mm
  proof (induction de b dd mm ct acc rule: dayLoop.induct)
    case (1 dayEnd' busySlots duration maxResults currentTime availableSlots)
    note eqs = "1.prems"
    show ?case
    proof (rule step)
      assume a: "currentTime + d \<le> dayEnd"
        "fst (checkBusy currentTime (currentTime + d) busy)"
        "\<not> m \<le> int (length availableSlots) + 1"
      have c: "currentTime + duration < dayEnd' \<or> currentTime + duration = dayEnd'"
        using a(1) eqs by auto
      have f: "fst (checkBusy currentTime (currentTime + duration) busySlots)"
        using a(2) eqs by simp
      have "P (snd (checkBusy currentTime (currentTime + duration) busySlots) + 30 * Minute)
         (availableSlots @ [\<lparr>Start = snd (checkBusy currentTime (currentTime + duration) busySlots),
            End = currentTime + duration\<rparr>])"
        by (rule "1.IH"(1)[OF c refl refl f refl _ eqs]) (use a(3) eqs in simp)
      then show "P (currentTime + 30 * Minute)
         (availableSlots @ [\<lparr>Start = currentTime, End = currentTime + d\<rparr>])"
        using checkBusy_fst_snd[OF f] eqs by simp
    next
      assume a: "currentTime + d \<le> dayEnd"
        "\<not> fst (checkBusy currentTime (currentTime + d) busy)"
      have c: "currentTime + duration < dayEnd' \<or> currentTime + duration = dayEnd'"
        using a(1) eqs by auto
      have f: "\<not> fst (checkBusy currentTime (currentTime + duration) busySlots)"
        using a(2) eqs by simp
      show "P (snd (checkBusy currentTime (currentTime + d) busy)) availableSlots"
        using "1.IH"(2)[OF c refl refl f eqs] eqs by simp
    qed
  qed
  then show ?thesis by simp
qed

lemma dateLoop_unfold:
  "dateLoop startDate endDate busy d wsh wsm weh wem m cd acc =
     (if cd < endDate \<and> int (length acc) < m
      then (if Weekday cd = Saturday \<or> Weekday cd = Sunday
            then dateLoop startDate endDate busy d wsh wsm weh wem m (cd + Day) acc
            else dateLoop startDate endDate busy d wsh wsm weh wem m (cd + Day)
                   (dayLoop (clampedEnd endDate cd weh wem) busy d m
                      (clampedStart startDate cd wsh wsm) acc))
      else acc)"
  by (subst dateLoop.simps) (simp add: Let_def clampedStart_def clampedEnd_def AddDate_def)

lemma dateLoop_induct [consumes 0, case_names step]:
  assumes step: "\<And>cd acc.
      (cd < endDate \<Longrightarrow> int (length acc) < m \<Longrightarrow>
         Weekday cd = Saturday \<or> Weekday cd = Sunday \<Longrightarrow> P (cd + Day) acc) \<Longrightarrow>
      (cd < endDate \<Longrightarrow> int (length acc) < m \<Longrightarrow>
         Weekday cd \<noteq> Saturday \<Longrightarrow> Weekday cd \<noteq> Sunday \<Longrightarrow>
         P (cd + Day) (dayLoop (clampedEnd endDate cd weh wem) busy d m
                      (clampedStart startDate cd wsh wsm) acc)) \<Longrightarrow>
      P cd acc"
  shows "P cd acc"
proof -
  have "sd = startDate \<Longrightarrow> ed = endDate \<Longrightarrow> b = busy \<Longrightarrow> dd = d \<Longrightarrow> h1 = wsh \<Longrightarrow>
        m1 = wsm \<Longrightarrow> h2 = weh \<Longrightarrow> m2 = wem \<Longrightarrow> mm = m \<Longrightarrow> P cd acc"
    for sd ed b dd h1 m1 h2 m2 mm
  proof (induction sd ed b dd h1 m1 h2 m2 mm cd acc rule: dateLoop.induct)
    case (1 startDate' endDate' busySlots duration workStartHour workStartMin workEndHour
        workEndMin maxResults currentDate availableSlots)
    note eqs = "1.prems"
    show ?case
    proof (rule step)
      assume a: "currentDate < endDate" "int (length availableSlots) < m"
        "Weekday currentDate = Saturday \<or> Weekday currentDate = Sunday"
      have c: "currentDate < endDate' \<and> int (length availableSlots) < maxResults"
        using a(1,2) eqs by simp
      show "P (currentDate + Day) availableSlots"
        using "1.IH"(1)[OF c refl refl a(3) eqs] by (simp add: AddDate_def)
    next
      assume a: "currentDate < endDate" "int (length availableSlots) < m"
        "Weekday currentDate \<noteq> Saturday" "Weekday currentDate \<noteq> Sunday"
      have c: "currentDate < endDate' \<and> int (length availableSlots) < maxResults"
        using a(1,2) eqs by simp
      have w: "\<not> (Weekday currentDate = Saturday \<or> Weekday currentDate = Sunday)"
        using a(3,4) by simp
      show "P (currentDate + Day)
         (dayLoop (clampedEnd endDate currentDate weh wem) busy d m
            (clampedStart startDate currentDate wsh wsm) availableSlots)"
        using "1.IH"(2)[OF c refl refl w refl refl eqs] unfolding eqs
        by (simp add: AddDate_def clampedStart_def clampedEnd_def)
    qed
  qed
  then show ?thesis by simp
qed

lemma dayLoopOpt_total:
  "dayLoopOpt dayEnd busy d m ct acc = Some (dayLoop dayEnd busy d m ct acc)"
proof (induction ct acc rule: dayLoop_induct[where d = d and dayEnd = dayEnd and busy = busy and m = m])
  case (step ct acc)
  show ?case
    by (subst dayLoopOpt.simps, subst dayLoop_unfold)
       (use step in \<open>auto simp: checkBusy_fst_snd\<close>)
qed

lemma dateLoopOpt_total:
  "dateLoopOpt startDate endDate busy d wsh wsm weh wem m cd acc =
   Some (dateLoop startDate endDate busy d wsh wsm weh wem m cd acc)"
proof (induction cd acc rule: dateLoop_induct[where startDate = startDate and endDate = endDate
      and busy = busy and d = d and wsh = wsh and wsm = wsm and weh = weh and wem = wem and m = m])
  case (step cd acc)
  show ?case
    by (subst dateLoopOpt.simps, subst dateLoop_unfold)
       (use step in \<open>auto simp: dayLoopOpt_total clampedStart_def clampedEnd_def AddDate_def\<close>)
qed

text \<open>
  C10: \<open>findAvailableSlots\<close> returns on every input, whatever the sign of the duration
  and of \<open>maxResults\<close> and whatever the busy intervals: the loops written without any
  termination argument always yield a value, the one of \<open>findAvailableSlots\<close>.  In the
  inner loop a conflict moves the cursor to the end of a busy interval that is strictly
  later, an accepted slot moves it by 30 minutes, and the outer loop moves the current
  date by one day.
\<close>

theorem findAvailableSlots_terminates:
  "findAvailableSlotsOpt startDate endDate busySlots duration workStart workEnd maxResults =
     Some (findAvailableSlots startDate endDate busySlots duration workStart workEnd maxResults) \<and>
   (\<not> fst (checkBusy currentTime slotEnd busySlots) \<longrightarrow>
      currentTime < snd (checkBusy currentTime slotEnd busySlots) \<and>
      snd (checkBusy currentTime slotEnd busySlots) \<in> End ` set busySlots) \<and>
   currentTime < currentTime + 30 * Minute \<and>
   AddDate currentDate 1 = currentDate + Day \<and> currentDate < AddDate currentDate 1"
proof -
  have "findAvailableSlotsOpt startDate endDate busySlots duration workStart workEnd maxResults =
     Some (findAvailableSlots startDate endDate busySlots duration workStart workEnd maxResults)"
    by (simp add: findAvailableSlotsOpt_def findAvailableSlots_def dateLoopOpt_total)
  moreover have "snd (checkBusy currentTime slotEnd busySlots) \<in> End ` set busySlots"
    if "\<not> fst (checkBusy currentTime slotEnd busySlots)"
    using that
      checkBusy_conflict[of currentTime slotEnd busySlots "snd (checkBusy currentTime slotEnd busySlots)"]
    by (cases "checkBusy currentTime slotEnd busySlots") auto
  ultimately show ?thesis
    by (auto simp: checkBusy_advance AddDate_def Day_def Hour_def Minute_def)
qed

theorem findAvailableSlots_terminates_witness:
  "\<not> fst (checkBusy 5 8 [\<lparr>Start = 1, End = 2\<rparr>, \<lparr>Start = 6, End = 9\<rparr>]) \<and>
   snd (checkBusy 5 8 [\<lparr>Start = 1, End = 2\<rparr>, \<lparr>Start = 6, End = 9\<rparr>]) = 9 \<and>
   (5::int) < snd (checkBusy 5 8 [\<lparr>Start = 1, End = 2\<rparr>, \<lparr>Start = 6, End = 9\<rparr>]) \<and>
   findAvailableSlotsOpt 0 Day [\<lparr>Start = 1, End = 2\<rparr>, \<lparr>Start = 6, End = 9\<rparr>] (- Hour)
     ''09:00'' ''17:00'' (- 1) =
   Some (findAvailableSlots 0 Day [\<lparr>Start = 1, End = 2\<rparr>, \<lparr>Start = 6, End = 9\<rparr>] (- Hour)
     ''09:00'' ''17:00'' (- 1))"
proof -
  have h: "\<not> fst (checkBusy 5 8 [\<lparr>Start = 1, End = 2\<rparr>, \<lparr>Start = 6, End = 9\<rparr>])" by simp
  have v: "snd (checkBusy 5 8 [\<lparr>Start = 1, End = 2\<rparr>, \<lparr>Start = 6, End = 9\<rparr>]) = 9" by simp
  show ?thesis
    using h v
      findAvailableSlots_terminates[of 0 Day "[\<lparr>Start = 1, End = 2\<rparr>, \<lparr>Start = 6, End = 9\<rparr>]"
        "- Hour" "''09:00''" "''17:00''" "- 1" 5 8]
    by simp
qed

section \<open>What the search returns\<close>

lemma dayLoop_new:
  "\<exists>new. dayLoop dayEnd busy d m ct acc = acc @ new \<and>
     (\<forall>s\<in>set new. ct \<le> Start s \<and> End s = Start s + d \<and> End s \<le> dayEnd \<and>
        (\<forall>b\<in>set busy. \<not> overlaps s b)) \<and>
     sorted_wrt (\<lambda>a b. Start a < Start b) new"
proof (induction ct acc rule: dayLoop_induct[where d = d and dayEnd = dayEnd and busy = busy and m = m])
  case (step ct acc)
  let ?slot = "\<lparr>Start = ct, End = ct + d\<rparr>"
  show ?case
  proof (cases "ct + d \<le> dayEnd")
    case False
    then show ?thesis by (subst dayLoop_unfold) simp
  next
    case fits: True
    show ?thesis
    proof (cases "fst (checkBusy ct (ct + d) busy)")
      case False
      from step(2)[OF fits False] obtain new where
        n: "dayLoop dayEnd busy d m (snd (checkBusy ct (ct + d) busy)) acc = acc @ new"
        "\<forall>s\<in>set new. snd (checkBusy ct (ct + d) busy) \<le> Start s \<and> End s = Start s + d \<and>
           End s \<le> dayEnd \<and> (\<forall>b\<in>set busy. \<not> overlaps s b)"
        "sorted_wrt (\<lambda>a b. Start a < Start b) new" by blast
      have "dayLoop dayEnd busy d m ct acc = acc @ new"
        using fits False n(1) by (subst dayLoop_unfold) simp
      moreover have "\<forall>s\<in>set new. ct \<le> Start s \<and> End s = Start s + d \<and>
           End s \<le> dayEnd \<and> (\<forall>b\<in>set busy. \<not> overlaps s b)"
        using n(2) checkBusy_advance[OF False] by force
      ultimately show ?thesis using n(3) by blast
    next
      case free: True
      have ok: "ct \<le> Start ?slot \<and> End ?slot = Start ?slot + d \<and> End ?slot \<le> dayEnd \<and>
        (\<forall>b\<in>set busy. \<not> overlaps ?slot b)"
        using fits checkBusy_free[OF free] by (auto simp: overlaps_def)
      show ?thesis
      proof (cases "m \<le> int (length acc) + 1")
        case True
        have "dayLoop dayEnd busy d m ct acc = acc @ [?slot]"
          using fits free True by (subst dayLoop_unfold) simp
        then show ?thesis using ok by (intro exI[of _ "[?slot]"]) simp
      next
        case False
        from step(1)[OF fits free False] obtain new where
          n: "dayLoop dayEnd busy d m (ct + 30 * Minute) (acc @ [?slot]) = (acc @ [?slot]) @ new"
          "\<forall>s\<in>set new. ct + 30 * Minute \<le> Start s \<and> End s = Start s + d \<and>
             End s \<le> dayEnd \<and> (\<forall>b\<in>set busy. \<not> overlaps s b)"
          "sorted_wrt (\<lambda>a b. Start a < Start b) new" by blast
        have "dayLoop dayEnd busy d m ct acc = acc @ (?slot # new)"
          using fits free False n(1) by (subst dayLoop_unfold) simp
        moreover have "\<forall>s\<in>set (?slot # new). ct \<le> Start s \<and> End s = Start s + d \<and>
             End s \<le> dayEnd \<and> (\<forall>b\<in>set busy. \<not> overlaps s b)"
          using n(2) ok by (force simp: Minute_def)
        moreover have "sorted_wrt (\<lambda>a b. Start a < Start b) (?slot # new)"
          using n(2,3) by (force simp: Minute_def)
        ultimately show ?thesis by blast
      qed
    qed
  qed
qed

lemma dayLoop_length:
  "int (length acc) < m \<Longrightarrow> int (length (dayLoop dayEnd busy d m ct acc)) \<le> m"
proof (induction ct acc rule: dayLoop_induct[where d = d and dayEnd = dayEnd and busy = busy and m = m])
  case (step ct acc)
  show ?case
    by (subst dayLoop_unfold) (use step in auto)
qed

lemma dayLoop_take:
  assumes nN: "n \<le> N"
  shows "int (length acc) < n \<Longrightarrow>
    dayLoop dayEnd busy d n ct acc = take (nat n) (dayLoop dayEnd busy d N ct acc)"
proof (induction ct acc rule: dayLoop_induct[where d = d and dayEnd = dayEnd and busy = busy and m = N])
  case (step ct acc)
  let ?slot = "\<lparr>Start = ct, End = ct + d\<rparr>"
  have len: "length acc < nat n" using step.prems by simp
  show ?case
  proof (cases "ct + d \<le> dayEnd")
    case False
    then show ?thesis using len by (subst (1 2) dayLoop_unfold) simp
  next
    case fits: True
    show ?thesis
    proof (cases "fst (checkBusy ct (ct + d) busy)")
      case False
      then show ?thesis
        using fits step.IH(2)[OF fits False step.prems] by (subst (1 2) dayLoop_unfold) simp
    next
      case free: True
      show ?thesis
      proof (cases "n \<le> int (length acc) + 1")
        case True
        then have n: "nat n = length acc + 1" using step.prems by simp
        have l: "dayLoop dayEnd busy d n ct acc = acc @ [?slot]"
          using fits free True by (subst dayLoop_unfold) simp
        have "\<exists>r. dayLoop dayEnd busy d N ct acc = acc @ ?slot # r"
        proof (cases "N \<le> int (length acc) + 1")
          case True
          then show ?thesis using fits free by (subst dayLoop_unfold) simp
        next
          case False
          obtain new where
            "dayLoop dayEnd busy d N (ct + 30 * Minute) (acc @ [?slot]) = (acc @ [?slot]) @ new"
            using dayLoop_new by blast
          then show ?thesis using fits free False by (subst dayLoop_unfold) simp
        qed
        then show ?thesis using l n by auto
      next
        case False
        then have "\<not> N \<le> int (length acc) + 1" using nN by simp
        then show ?thesis
          using fits free False step.IH(1)[OF fits free]
          by (subst (1 2) dayLoop_unfold) simp
      qed
    qed
  qed
qed

lemma dateLoop_new:
  "\<exists>new. dateLoop startDate endDate busy d wsh wsm weh wem m cd acc = acc @ new"
proof (induction cd acc rule: dateLoop_induct[where startDate = startDate and endDate = endDate
      and busy = busy and d = d and wsh = wsh and wsm = wsm and weh = weh and wem = wem and m = m])
  case (step cd acc)
  show ?case
  proof (cases "cd < endDate \<and> int (length acc) < m")
    case False
    then show ?thesis by (subst dateLoop_unfold) auto
  next
    case c: True
    show ?thesis
    proof (cases "Weekday cd = Saturday \<or> Weekday cd = Sunday")
      case True
      then show ?thesis using c step(1) by (subst dateLoop_unfold) auto
    next
      case False
      let ?r = "dayLoop (clampedEnd endDate cd weh wem) busy d m (clampedStart startDate cd wsh wsm) acc"
      obtain n1 where n1: "?r = acc @ n1" using dayLoop_new by blast
      from False c step(2) obtain n2 where
        "dateLoop startDate endDate busy d wsh wsm weh wem m (cd + Day) ?r = ?r @ n2" by blast
      then have "dateLoop startDate endDate busy d wsh wsm weh wem m cd acc = acc @ (n1 @ n2)"
        using c False n1 by (subst dateLoop_unfold) simp
      then show ?thesis by blast
    qed
  qed
qed

lemma dateLoop_take:
  assumes nN: "n \<le> N"
  shows "int (length acc) \<le> n \<Longrightarrow>
    dateLoop startDate endDate busy d wsh wsm weh wem n cd acc =
    take (nat n) (dateLoop startDate endDate busy d wsh wsm weh wem N cd acc)"
proof (induction cd acc rule: dateLoop_induct[where startDate = startDate and endDate = endDate
      and busy = busy and d = d and wsh = wsh and wsm = wsm and weh = weh and wem = wem and m = N])
  case (step cd acc)
  obtain new where new: "dateLoop startDate endDate busy d wsh wsm weh wem N cd acc = acc @ new"
    using dateLoop_new by blast
  show ?case
  proof (cases "int (length acc) < n")
    case False
    then have "nat n = length acc" using step.prems by simp
    moreover have "dateLoop startDate endDate busy d wsh wsm weh wem n cd acc = acc"
      using False by (subst dateLoop_unfold) simp
    ultimately show ?thesis using new by simp
  next
    case lt: True
    then have ltN: "int (length acc) < N" using nN by simp
    show ?thesis
    proof (cases "cd < endDate")
      case False
      then show ?thesis using lt by (subst (1 2) dateLoop_unfold) simp
    next
      case c: True
      show ?thesis
      proof (cases "Weekday cd = Saturday \<or> Weekday cd = Sunday")
        case True
        then show ?thesis
          using c lt ltN step.IH(1)[OF c ltN True] by (subst (1 2) dateLoop_unfold) simp
      next
        case False
        let ?rN = "dayLoop (clampedEnd endDate cd weh wem) busy d N (clampedStart startDate cd wsh wsm) acc"
        let ?rn = "dayLoop (clampedEnd endDate cd weh wem) busy d n (clampedStart startDate cd wsh wsm) acc"
        have rn: "?rn = take (nat n) ?rN" by (rule dayLoop_take[OF nN lt])
        have l: "dateLoop startDate endDate busy d wsh wsm weh wem n cd acc =
           dateLoop startDate endDate busy d wsh wsm weh wem n (cd + Day) ?rn"
          using c lt False by (subst dateLoop_unfold) simp
        have r: "dateLoop startDate endDate busy d wsh wsm weh wem N cd acc =
           dateLoop startDate endDate busy d wsh wsm weh wem N (cd + Day) ?rN"
          using c ltN False by (subst dateLoop_unfold) simp
        show ?thesis
        proof (cases "int (length ?rN) \<le> n")
          case True
          then have "?rn = ?rN" using rn by simp
          then show ?thesis using l r step.IH(2)[OF c ltN _ _ True] False by simp
        next
          case False
          then have len: "length ?rn = nat n" using rn by simp
          then have "dateLoop startDate endDate busy d wsh wsm weh wem n (cd + Day) ?rn = ?rn"
            using lt by (subst dateLoop_unfold) simp
          moreover obtain n2 where
            "dateLoop startDate endDate busy d wsh wsm weh wem N (cd + Day) ?rN = ?rN @ n2"
            using dateLoop_new by blast
          ultimately show ?thesis using l r rn False by simp
        qed
      qed
    qed
  qed
qed

lemma findAvailableSlots_take:
  assumes "n \<le> N"
  shows "findAvailableSlots startDate endDate busy d ws we n =
    take (nat n) (findAvailableSlots startDate endDate busy d ws we N)"
proof (cases "0 \<le> n")
  case True
  then show ?thesis
    unfolding findAvailableSlots_def Let_def by (intro dateLoop_take[OF assms]) simp
next
  case False
  then show ?thesis
    unfolding findAvailableSlots_def Let_def by (subst dateLoop_unfold) simp
qed

lemma Day_pos: "0 < Day"
  by (simp add: Day_def Hour_def Minute_def)

lemma timeOfDay_bounds:
  assumes "timeOfDay (h, mi)"
  shows "0 \<le> h * Hour + mi * Minute" "h * Hour + mi * Minute < Day"
  using assms by (simp_all add: timeOfDay_def Day_def Hour_def Minute_def)

lemma same_day:
  assumes "c div Day * Day \<le> t" "t < c div Day * Day + Day"
  shows "t div Day = c div Day"
proof (rule int_div_pos_eq)
  show "t = Day * (c div Day) + (t - c div Day * Day)" by simp
  show "0 \<le> t - c div Day * Day" using assms(1) by simp
  show "t - c div Day * Day < Day" using assms(2) by simp
qed

lemma next_day: "(cd + Day) div Day = cd div Day + 1"
  by (rule div_add_self2) (use Day_pos in simp)

lemma dateLoop_length:
  "int (length acc) \<le> m \<Longrightarrow>
   int (length (dateLoop startDate endDate busy d wsh wsm weh wem m cd acc)) \<le> m"
proof (induction cd acc rule: dateLoop_induct[where startDate = startDate and endDate = endDate
      and busy = busy and d = d and wsh = wsh and wsm = wsm and weh = weh and wem = wem and m = m])
  case (step cd acc)
  show ?case
    by (subst dateLoop_unfold) (use step in \<open>auto simp: dayLoop_length\<close>)
qed

lemma dateLoop_exact:
  "\<forall>s\<in>set acc. End s = Start s + d \<and> (\<forall>b\<in>set busy. \<not> overlaps s b) \<Longrightarrow>
   \<forall>s\<in>set (dateLoop startDate endDate busy d wsh wsm weh wem m cd acc).
      End s = Start s + d \<and> (\<forall>b\<in>set busy. \<not> overlaps s b)"
proof (induction cd acc rule: dateLoop_induct[where startDate = startDate and endDate = endDate
      and busy = busy and d = d and wsh = wsh and wsm = wsm and weh = weh and wem = wem and m = m])
  case (step cd acc)
  let ?r = "dayLoop (clampedEnd endDate cd weh wem) busy d m (clampedStart startDate cd wsh wsm) acc"
  obtain new where new: "?r = acc @ new"
    "\<forall>s\<in>set new. End s = Start s + d \<and> (\<forall>b\<in>set busy. \<not> overlaps s b)"
    using dayLoop_new[of "clampedEnd endDate cd weh wem" busy d m
        "clampedStart startDate cd wsh wsm" acc] by blast
  have r: "\<forall>s\<in>set ?r. End s = Start s + d \<and> (\<forall>b\<in>set busy. \<not> overlaps s b)"
    using new step.prems by auto
  show ?case
    by (subst dateLoop_unfold) (use step r in auto)
qed

lemma dateLoop_valid:
  assumes d: "0 \<le> d" and ws: "timeOfDay (wsh, wsm)" and we: "timeOfDay (weh, wem)"
  shows "\<forall>s\<in>set acc. validSlot startDate endDate busy d (wsh, wsm) (weh, wem) s \<and>
            Start s < cd div Day * Day \<Longrightarrow>
     sorted_wrt (\<lambda>a b. Start a < Start b) acc \<Longrightarrow>
     (\<forall>s\<in>set (dateLoop startDate endDate busy d wsh wsm weh wem m cd acc).
         validSlot startDate endDate busy d (wsh, wsm) (weh, wem) s) \<and>
     sorted_wrt (\<lambda>a b. Start a < Start b)
       (dateLoop startDate endDate busy d wsh wsm weh wem m cd acc)"
proof (induction cd acc rule: dateLoop_induct[where startDate = startDate and endDate = endDate
      and busy = busy and d = d and wsh = wsh and wsm = wsm and weh = weh and wem = wem and m = m])
  case (step cd acc)
  let ?mid = "cd div Day * Day"
  have nxt: "(cd + Day) div Day * Day = ?mid + Day"
    unfolding next_day by (simp add: algebra_simps)
  have old: "\<forall>s\<in>set acc. validSlot startDate endDate busy d (wsh, wsm) (weh, wem) s \<and>
            Start s < (cd + Day) div Day * Day"
    using step.prems(1) Day_pos unfolding nxt by force
  show ?case
  proof (cases "cd < endDate \<and> int (length acc) < m")
    case False
    then show ?thesis using step.prems by (subst (1 2) dateLoop_unfold) auto
  next
    case c: True
    show ?thesis
    proof (cases "Weekday cd = Saturday \<or> Weekday cd = Sunday")
      case True
      then show ?thesis
        using c step.IH(1)[OF _ _ True old step.prems(2)]
        by (subst (1 2) dateLoop_unfold) simp
    next
      case wk: False
      let ?lo = "clampedStart startDate cd wsh wsm"
      let ?hi = "clampedEnd endDate cd weh wem"
      let ?r = "dayLoop ?hi busy d m ?lo acc"
      obtain new where new: "?r = acc @ new"
        "\<forall>s\<in>set new. ?lo \<le> Start s \<and> End s = Start s + d \<and> End s \<le> ?hi \<and>
           (\<forall>b\<in>set busy. \<not> overlaps s b)"
        "sorted_wrt (\<lambda>a b. Start a < Start b) new"
        using dayLoop_new[of ?hi busy d m ?lo acc] by blast
      have lo: "?mid \<le> ?lo" "startDate \<le> ?lo" "Date cd wsh wsm \<le> ?lo"
        using timeOfDay_bounds(1)[OF ws] by (auto simp: clampedStart_def Date_def)
      have hi: "?hi < ?mid + Day" "?hi \<le> endDate" "?hi \<le> Date cd weh wem"
        using timeOfDay_bounds(2)[OF we] by (auto simp: clampedEnd_def Date_def)
      have fresh: "validSlot startDate endDate busy d (wsh, wsm) (weh, wem) s \<and>
            ?mid \<le> Start s \<and> Start s < ?mid + Day" if "s \<in> set new" for s
      proof -
        from new(2) that have s: "?lo \<le> Start s" "End s = Start s + d" "End s \<le> ?hi"
          "\<forall>b\<in>set busy. \<not> overlaps s b" by auto
        have b1: "?mid \<le> Start s" using s(1) lo(1) by simp
        have b2: "End s < ?mid + Day" using s(3) hi(1) by simp
        have b3: "Start s \<le> End s" using s(2) d by simp
        have sd: "Start s div Day = cd div Day"
          by (rule same_day) (use b1 b2 b3 in auto)
        have ed: "End s div Day = cd div Day"
          by (rule same_day) (use b1 b2 b3 in auto)
        have "Weekday (Start s) = Weekday cd" by (simp add: Weekday_def sd)
        moreover have "Date (Start s) wsh wsm = Date cd wsh wsm"
          "Date (Start s) weh wem = Date cd weh wem" by (simp_all add: Date_def sd)
        ultimately show ?thesis
          using s wk sd ed lo hi b1 b2 b3
          by (auto simp: validSlot_def list_all_iff)
      qed
      have all: "\<forall>s\<in>set ?r. validSlot startDate endDate busy d (wsh, wsm) (weh, wem) s \<and>
            Start s < (cd + Day) div Day * Day"
        using old fresh unfolding new(1) nxt by auto
      have srt: "sorted_wrt (\<lambda>a b. Start a < Start b) ?r"
        unfolding new(1) sorted_wrt_append
        using step.prems new(3) fresh by fastforce
      show ?thesis
        using c wk step.IH(2)[OF _ _ _ _ all srt]
        by (subst (1 2) dateLoop_unfold) simp
    qed
  qed
qed

lemma parse_0900: "parseTimeString ''09:00'' = (9, 0)" by code_simp
lemma parse_1700: "parseTimeString ''17:00'' = (17, 0)" by code_simp

lemma upto_0_10: "[0 .. 10] = [0,1,2,3,4,5,6,7,8,9,10::int]" by code_simp

lemma example13:
  assumes "monday mod Day = 0" "Weekday monday = Monday"
  shows "findAvailableSlots monday (monday + Day)
       [\<lparr>Start = monday + 10 * Hour, End = monday + 11 * Hour\<rparr>] (60 * Minute)
       ''09:00'' ''17:00'' 13 = exampleSlots monday"
proof -
  have md: "monday div Day * Day = monday" using assms(1) minus_mod_eq_div_mult[of monday Day] by simp
  have wd: "Weekday monday \<noteq> Saturday" "Weekday monday \<noteq> Sunday"
    using assms(2) by (simp_all add: Monday_def Saturday_def Sunday_def)
  have d9: "Date monday 9 0 = monday + 9 * Hour" and d17: "Date monday 17 0 = monday + 17 * Hour"
    using md by (simp_all add: Date_def)
  show ?thesis
    unfolding findAvailableSlots_def Let_def parse_0900 parse_1700 fst_conv snd_conv exampleSlots_def upto_0_10
    apply (subst dateLoop_unfold)
    apply (simp add: wd clampedStart_def clampedEnd_def d9 d17)
    apply (simp add: dayLoop_unfold Hour_def Minute_def Day_def)
    apply (subst dateLoop_unfold)
    apply (simp add: Day_def Hour_def Minute_def)
    done
qed

lemma exampleMonday_is_Monday: "exampleMonday mod Day = 0" "Weekday exampleMonday = Monday"
  by (simp_all add: exampleMonday_def Weekday_def Monday_def Day_def Hour_def Minute_def)

text \<open>
  C1, as the code has it.  For every input each returned slot is exactly \<open>duration\<close>
  long and overlaps no busy interval.  The list is no longer than \<open>maxResults\<close> when
  \<open>maxResults\<close> is not negative.  When the duration is not negative and both working
  hours are times of day (hour 0 to 23, minute 0 to 59), each slot lies inside the
  working hours of its own day, which is neither a Saturday nor a Sunday, and inside the
  requested range, and the list is in strictly increasing order of start.
\<close>

theorem findAvailableSlots_contract:
  "list_all (\<lambda>s. End s = Start s + duration \<and> list_all (\<lambda>b. \<not> overlaps s b) busySlots)
     (findAvailableSlots startDate endDate busySlots duration workStart workEnd maxResults) \<and>
   (0 \<le> maxResults \<longrightarrow>
      int (length (findAvailableSlots startDate endDate busySlots duration workStart workEnd
        maxResults)) \<le> maxResults) \<and>
   (0 \<le> duration \<and> timeOfDay (parseTimeString workStart) \<and> timeOfDay (parseTimeString workEnd) \<longrightarrow>
      list_all (validSlot startDate endDate busySlots duration
                  (parseTimeString workStart) (parseTimeString workEnd))
        (findAvailableSlots startDate endDate busySlots duration workStart workEnd maxResults) \<and>
      sorted_wrt (\<lambda>a b. Start a < Start b)
        (findAvailableSlots startDate endDate busySlots duration workStart workEnd maxResults))"
proof (intro conjI impI)
  show "list_all (\<lambda>s. End s = Start s + duration \<and> list_all (\<lambda>b. \<not> overlaps s b) busySlots)
     (findAvailableSlots startDate endDate busySlots duration workStart workEnd maxResults)"
    using dateLoop_exact[of "[]" duration busySlots startDate endDate
        "fst (parseTimeString workStart)" "snd (parseTimeString workStart)"
        "fst (parseTimeString workEnd)" "snd (parseTimeString workEnd)" maxResults startDate]
    by (simp add: findAvailableSlots_def list_all_iff)
next
  assume "0 \<le> maxResults"
  then show "int (length (findAvailableSlots startDate endDate busySlots duration workStart workEnd
        maxResults)) \<le> maxResults"
    by (simp add: findAvailableSlots_def dateLoop_length)
next
  assume h: "0 \<le> duration \<and> timeOfDay (parseTimeString workStart) \<and>
    timeOfDay (parseTimeString workEnd)"
  note v = dateLoop_valid[of duration "fst (parseTimeString workStart)"
      "snd (parseTimeString workStart)" "fst (parseTimeString workEnd)"
      "snd (parseTimeString workEnd)" "[]" startDate endDate busySlots startDate maxResults]
  show "list_all (validSlot startDate endDate busySlots duration
                  (parseTimeString workStart) (parseTimeString workEnd))
        (findAvailableSlots startDate endDate busySlots duration workStart workEnd maxResults)"
    using h v by (simp add: findAvailableSlots_def list_all_iff)
  show "sorted_wrt (\<lambda>a b. Start a < Start b)
        (findAvailableSlots startDate endDate busySlots duration workStart workEnd maxResults)"
    using h v by (simp add: findAvailableSlots_def)
qed

theorem findAvailableSlots_contract_witness:
  "0 \<le> (3::int) \<and> 0 \<le> 60 * Minute \<and>
   timeOfDay (parseTimeString ''09:00'') \<and> timeOfDay (parseTimeString ''17:00'') \<and>
   findAvailableSlots exampleMonday (exampleMonday + Day)
     [\<lparr>Start = exampleMonday + 10 * Hour, End = exampleMonday + 11 * Hour\<rparr>] (60 * Minute)
     ''09:00'' ''17:00'' 3 = take 3 (exampleSlots exampleMonday) \<and>
   list_all (validSlot exampleMonday (exampleMonday + Day)
       [\<lparr>Start = exampleMonday + 10 * Hour, End = exampleMonday + 11 * Hour\<rparr>] (60 * Minute)
       (parseTimeString ''09:00'') (parseTimeString ''17:00''))
     (take 3 (exampleSlots exampleMonday)) \<and>
   sorted_wrt (\<lambda>a b. Start a < Start b) (take 3 (exampleSlots exampleMonday)) \<and>
   int (length (take 3 (exampleSlots exampleMonday))) \<le> 3"
proof -
  let ?busy = "[\<lparr>Start = exampleMonday + 10 * Hour, End = exampleMonday + 11 * Hour\<rparr>]"
  have h1: "0 \<le> (3::int)" by simp
  have h2: "0 \<le> 60 * Minute \<and> timeOfDay (parseTimeString ''09:00'') \<and>
    timeOfDay (parseTimeString ''17:00'')"
    by (simp add: parse_0900 parse_1700 timeOfDay_def Minute_def)
  have r: "findAvailableSlots exampleMonday (exampleMonday + Day) ?busy (60 * Minute)
     ''09:00'' ''17:00'' 3 = take 3 (exampleSlots exampleMonday)"
    using findAvailableSlots_take[of 3 13 exampleMonday "exampleMonday + Day" ?busy
        "60 * Minute" "''09:00''" "''17:00''"]
      example13[OF exampleMonday_is_Monday] by simp
  show ?thesis
    using h1 h2 r
      findAvailableSlots_contract[of "60 * Minute" ?busy exampleMonday "exampleMonday + Day"
        "''09:00''" "''17:00''" 3]
    by metis
qed

text \<open>
  Without these conditions the contract fails: working hours from 24:00 to 33:00 put a
  slot of a Friday scan on the Saturday; with \<open>maxResults = -1\<close> the empty result is
  longer than \<open>maxResults\<close>; with a duration of minus one hour the slot that starts
  at 09:00 ends at 08:00, before the working hours begin.
\<close>

theorem findAvailableSlots_contract_counterexample:
  "\<not> list_all (\<lambda>s. Weekday (Start s) \<noteq> Saturday \<and> Weekday (Start s) \<noteq> Sunday)
      (findAvailableSlots (exampleMonday + 4 * Day) (exampleMonday + 6 * Day) []
         (60 * Minute) ''24:00'' ''33:00'' 1) \<and>
   \<not> int (length (findAvailableSlots exampleMonday (exampleMonday + Day) []
         (60 * Minute) ''09:00'' ''17:00'' (- 1))) \<le> - 1 \<and>
   \<not> list_all (\<lambda>s. Date (Start s) 9 0 \<le> End s)
      (findAvailableSlots exampleMonday (exampleMonday + Day) []
         (- Hour) ''09:00'' ''17:00'' 1)"
  by code_simp

lemma length_exampleSlots: "length (exampleSlots monday) = 12"
  by (simp add: exampleSlots_def upto_0_10)

text \<open>
  C6: the example of the specification, for every Monday.  With the range from Monday
  00:00 to Tuesday 00:00, working hours 09:00 to 17:00, a duration of 60 minutes and
  one busy interval from 10:00 to 11:00, the search returns the first \<open>maxResults\<close> of
  the slots 09:00 to 10:00, 11:00 to 12:00, 11:30 to 12:30 and so on in steps of 30
  minutes up to 16:00 to 17:00.  The candidate at 09:00 is free although it ends where
  the busy interval starts; the candidate at 09:30 conflicts, and the cursor moves to
  11:00, the end of the busy interval.
\<close>

theorem findAvailableSlots_monday_example:
  assumes "monday mod Day = 0" "Weekday monday = Monday"
  shows "findAvailableSlots monday (monday + Day)
       [\<lparr>Start = monday + 10 * Hour, End = monday + 11 * Hour\<rparr>] (60 * Minute)
       ''09:00'' ''17:00'' maxResults = take (nat maxResults) (exampleSlots monday) \<and>
     checkBusy (monday + 9 * Hour) (monday + 9 * Hour + 60 * Minute)
       [\<lparr>Start = monday + 10 * Hour, End = monday + 11 * Hour\<rparr>] = (True, monday + 9 * Hour) \<and>
     checkBusy (monday + 9 * Hour + 30 * Minute) (monday + 9 * Hour + 30 * Minute + 60 * Minute)
       [\<lparr>Start = monday + 10 * Hour, End = monday + 11 * Hour\<rparr>] = (False, monday + 11 * Hour)"
proof -
  let ?busy = "[\<lparr>Start = monday + 10 * Hour, End = monday + 11 * Hour\<rparr>]"
  let ?f = "findAvailableSlots monday (monday + Day) ?busy (60 * Minute) ''09:00'' ''17:00''"
  note e13 = example13[OF assms]
  have "?f maxResults = take (nat maxResults) (exampleSlots monday)"
  proof (cases "maxResults \<le> 13")
    case True
    then show ?thesis
      using findAvailableSlots_take[of maxResults 13 monday "monday + Day" ?busy
          "60 * Minute" "''09:00''" "''17:00''"] e13 by simp
  next
    case False
    then have "?f 13 = take (nat 13) (?f maxResults)"
      by (intro findAvailableSlots_take) simp
    then have "length (take 13 (?f maxResults)) = 12"
      using e13 length_exampleSlots[of monday] by simp
    then have "length (?f maxResults) = 12" by (simp add: min_def split: if_splits)
    then have "?f maxResults = ?f 13"
      using \<open>?f 13 = take (nat 13) (?f maxResults)\<close> by simp
    then show ?thesis using e13 False length_exampleSlots[of monday] by simp
  qed
  then show ?thesis by (simp add: Hour_def Minute_def)
qed

theorem findAvailableSlots_monday_example_witness:
  "exampleMonday mod Day = 0 \<and> Weekday exampleMonday = Monday \<and>
   findAvailableSlots exampleMonday (exampleMonday + Day)
       [\<lparr>Start = exampleMonday + 10 * Hour, End = exampleMonday + 11 * Hour\<rparr>] (60 * Minute)
       ''09:00'' ''17:00'' 3 =
     [\<lparr>Start = exampleMonday + 9 * Hour, End = exampleMonday + 10 * Hour\<rparr>,
      \<lparr>Start = exampleMonday + 11 * Hour, End = exampleMonday + 12 * Hour\<rparr>,
      \<lparr>Start = exampleMonday + 11 * Hour + 30 * Minute,
       End = exampleMonday + 12 * Hour + 30 * Minute\<rparr>]"
proof -
  have "take (nat 3) (exampleSlots exampleMonday) =
     [\<lparr>Start = exampleMonday + 9 * Hour, End = exampleMonday + 10 * Hour\<rparr>,
      \<lparr>Start = exampleMonday + 11 * Hour, End = exampleMonday + 12 * Hour\<rparr>,
      \<lparr>Start = exampleMonday + 11 * Hour + 30 * Minute,
       End = exampleMonday + 12 * Hour + 30 * Minute\<rparr>]"
    by (simp add: exampleSlots_def upto_0_10)
  then show ?thesis
    using exampleMonday_is_Monday
      findAvailableSlots_monday_example[OF exampleMonday_is_Monday, of 3]
    by simp
qed

lemma checkBusy_conflict_with:
  "checkBusy ct se busy = (False, ct') \<Longrightarrow>
   \<exists>b\<in>set busy. ct' = End b \<and> ct < End b \<and> se > Start b"
  by (induction busy) (auto split: if_splits)

lemma dayLoop_complete:
  "int (length (dayLoop dayEnd busy d m ct acc)) < m \<Longrightarrow>
   ct \<le> t \<Longrightarrow> t + d \<le> dayEnd \<Longrightarrow>
   \<forall>b\<in>set busy. \<not> overlaps \<lparr>Start = t, End = t + d\<rparr> b \<Longrightarrow>
   \<exists>s\<in>set (dayLoop dayEnd busy d m ct acc). Start s \<le> t \<and> t < Start s + 30 * Minute"
proof (induction ct acc rule: dayLoop_induct[where d = d and dayEnd = dayEnd and busy = busy and m = m])
  case (step ct acc)
  let ?slot = "\<lparr>Start = ct, End = ct + d\<rparr>"
  have fits: "ct + d \<le> dayEnd" using step.prems(2,3) by simp
  show ?case
  proof (cases "fst (checkBusy ct (ct + d) busy)")
    case False
    then have "checkBusy ct (ct + d) busy = (False, snd (checkBusy ct (ct + d) busy))"
      by (metis prod.collapse)
    from checkBusy_conflict_with[OF this] obtain b where
      b: "b \<in> set busy" "snd (checkBusy ct (ct + d) busy) = End b" "ct < End b"
        "ct + d > Start b" by blast
    have "\<not> overlaps \<lparr>Start = t, End = t + d\<rparr> b" using step.prems(4) b(1) by blast
    then have le: "snd (checkBusy ct (ct + d) busy) \<le> t"
      using b(2,4) step.prems(2) by (auto simp: overlaps_def)
    have eq: "dayLoop dayEnd busy d m ct acc =
      dayLoop dayEnd busy d m (snd (checkBusy ct (ct + d) busy)) acc"
      using fits False by (subst dayLoop_unfold) simp
    show ?thesis
      unfolding eq
      by (rule step.IH(2)[OF fits False _ le step.prems(3,4)])
         (use step.prems(1) eq in simp)
  next
    case free: True
    have nm: "\<not> m \<le> int (length acc) + 1"
    proof
      assume "m \<le> int (length acc) + 1"
      then have "dayLoop dayEnd busy d m ct acc = acc @ [?slot]"
        using fits free by (subst dayLoop_unfold) simp
      then show False using step.prems(1) \<open>m \<le> int (length acc) + 1\<close> by simp
    qed
    have eq: "dayLoop dayEnd busy d m ct acc =
      dayLoop dayEnd busy d m (ct + 30 * Minute) (acc @ [?slot])"
      using fits free nm by (subst dayLoop_unfold) simp
    show ?thesis
    proof (cases "t < ct + 30 * Minute")
      case True
      obtain new where
        "dayLoop dayEnd busy d m (ct + 30 * Minute) (acc @ [?slot]) = (acc @ [?slot]) @ new"
        using dayLoop_new by blast
      then have "?slot \<in> set (dayLoop dayEnd busy d m ct acc)" unfolding eq by simp
      then show ?thesis using True step.prems(2) by (intro bexI[of _ ?slot]) auto
    next
      case False
      then have le: "ct + 30 * Minute \<le> t" by simp
      show ?thesis
        unfolding eq
        by (rule step.IH(1)[OF fits free nm _ le step.prems(3,4)])
           (use step.prems(1) eq in simp)
    qed
  qed
qed

lemma dateLoop_complete:
  "int (length (dateLoop startDate endDate busy d wsh wsm weh wem m cd acc)) < m \<Longrightarrow>
   cd + int k * Day < endDate \<Longrightarrow>
   Weekday (cd + int k * Day) \<noteq> Saturday \<Longrightarrow> Weekday (cd + int k * Day) \<noteq> Sunday \<Longrightarrow>
   clampedStart startDate (cd + int k * Day) wsh wsm \<le> t \<Longrightarrow>
   t + d \<le> clampedEnd endDate (cd + int k * Day) weh wem \<Longrightarrow>
   \<forall>b\<in>set busy. \<not> overlaps \<lparr>Start = t, End = t + d\<rparr> b \<Longrightarrow>
   \<exists>s\<in>set (dateLoop startDate endDate busy d wsh wsm weh wem m cd acc).
      Start s \<le> t \<and> t < Start s + 30 * Minute"
proof (induction cd acc arbitrary: k rule: dateLoop_induct[where startDate = startDate and endDate = endDate
      and busy = busy and d = d and wsh = wsh and wsm = wsm and weh = weh and wem = wem and m = m])
  case (step cd acc)
  let ?D = "dateLoop startDate endDate busy d wsh wsm weh wem m"
  have c: "cd < endDate \<and> int (length acc) < m"
  proof (rule ccontr)
    assume n: "\<not> (cd < endDate \<and> int (length acc) < m)"
    then have "?D cd acc = acc" by (subst dateLoop_unfold) auto
    then have "int (length acc) < m" using step.prems(1) by simp
    moreover have "0 \<le> int k * Day" using Day_pos by simp
    then have "cd < endDate" using step.prems(2) by linarith
    ultimately show False using n by simp
  qed
  define acc' where "acc' = (if Weekday cd = Saturday \<or> Weekday cd = Sunday then acc
       else dayLoop (clampedEnd endDate cd weh wem) busy d m (clampedStart startDate cd wsh wsm) acc)"
  have D: "?D cd acc = ?D (cd + Day) acc'"
    using c by (subst dateLoop_unfold) (simp add: acc'_def)
  have len: "int (length (?D (cd + Day) acc')) < m" using step.prems(1) D by simp
  show ?case
  proof (cases k)
    case 0
    then have wk: "Weekday cd \<noteq> Saturday" "Weekday cd \<noteq> Sunday"
      and lo: "clampedStart startDate cd wsh wsm \<le> t"
      and hi: "t + d \<le> clampedEnd endDate cd weh wem"
      using step.prems by simp_all
    have acc': "acc' = dayLoop (clampedEnd endDate cd weh wem) busy d m
        (clampedStart startDate cd wsh wsm) acc"
      using wk by (simp add: acc'_def)
    obtain more where more: "?D (cd + Day) acc' = acc' @ more"
      using dateLoop_new by blast
    have "int (length acc') < m" using len more by simp
    then have "\<exists>s\<in>set acc'. Start s \<le> t \<and> t < Start s + 30 * Minute"
      unfolding acc' by (intro dayLoop_complete lo hi step.prems(7))
    then show ?thesis unfolding D more by auto
  next
    case (Suc j)
    have sh: "cd + int k * Day = cd + Day + int j * Day"
      using Suc by (simp add: algebra_simps)
    note p = step.prems(2-6)[unfolded sh]
    show ?thesis
      unfolding D
    proof (cases "Weekday cd = Saturday \<or> Weekday cd = Sunday")
      case True
      then have a: "acc' = acc" by (simp add: acc'_def)
      show "\<exists>s\<in>set (?D (cd + Day) acc'). Start s \<le> t \<and> t < Start s + 30 * Minute"
        unfolding a
        by (rule step.IH(1)[OF _ _ True _ p step.prems(7)]) (use c len a in auto)
    next
      case False
      then have a: "acc' = dayLoop (clampedEnd endDate cd weh wem) busy d m
        (clampedStart startDate cd wsh wsm) acc" by (simp add: acc'_def)
      show "\<exists>s\<in>set (?D (cd + Day) acc'). Start s \<le> t \<and> t < Start s + 30 * Minute"
        unfolding a
        by (rule step.IH(2)[OF _ _ _ _ _ p step.prems(7)]) (use c len a False in auto)
    qed
  qed
qed

text \<open>
  C8, as the code has it.  The search with a smaller \<open>maxResults\<close> returns a prefix of
  the search with a larger one, so the number of slots is the minimum of \<open>maxResults\<close>
  and the number of slots that the scan accepts without that bound; when fewer than
  \<open>maxResults\<close> slots are returned, a larger bound returns the same list.  In that case
  the scan has missed nothing but what lies between its steps: on every weekday that the
  loop visits, each free candidate inside the clamped window starts less than 30 minutes
  after the start of a returned slot; in particular so does every valid slot on a day
  that the loop visits.
\<close>

theorem findAvailableSlots_prefix_count:
  "(n \<le> N \<longrightarrow>
      findAvailableSlots startDate endDate busySlots duration workStart workEnd n =
        take (nat n) (findAvailableSlots startDate endDate busySlots duration workStart workEnd N) \<and>
      length (findAvailableSlots startDate endDate busySlots duration workStart workEnd n) =
        min (nat n)
          (length (findAvailableSlots startDate endDate busySlots duration workStart workEnd N))) \<and>
   (n \<le> N \<and>
    int (length (findAvailableSlots startDate endDate busySlots duration workStart workEnd n)) < n \<longrightarrow>
      findAvailableSlots startDate endDate busySlots duration workStart workEnd N =
        findAvailableSlots startDate endDate busySlots duration workStart workEnd n) \<and>
   (int (length (findAvailableSlots startDate endDate busySlots duration workStart workEnd n)) < n \<and>
    startDate + int k * Day < endDate \<and>
    Weekday (startDate + int k * Day) \<noteq> Saturday \<and>
    Weekday (startDate + int k * Day) \<noteq> Sunday \<and>
    clampedStart startDate (startDate + int k * Day)
      (fst (parseTimeString workStart)) (snd (parseTimeString workStart)) \<le> t \<and>
    t + duration \<le> clampedEnd endDate (startDate + int k * Day)
      (fst (parseTimeString workEnd)) (snd (parseTimeString workEnd)) \<and>
    list_all (\<lambda>b. \<not> overlaps \<lparr>Start = t, End = t + duration\<rparr> b) busySlots \<longrightarrow>
      list_ex (\<lambda>r. Start r \<le> t \<and> t < Start r + 30 * Minute)
        (findAvailableSlots startDate endDate busySlots duration workStart workEnd n)) \<and>
   (int (length (findAvailableSlots startDate endDate busySlots duration workStart workEnd n)) < n \<and>
    validSlot startDate endDate busySlots duration
      (parseTimeString workStart) (parseTimeString workEnd) s \<and>
    startDate + int j * Day < endDate \<and>
    (startDate + int j * Day) div Day = Start s div Day \<longrightarrow>
      list_ex (\<lambda>r. Start r \<le> Start s \<and> Start s < Start r + 30 * Minute)
        (findAvailableSlots startDate endDate busySlots duration workStart workEnd n))"
proof -
  let ?f = "findAvailableSlots startDate endDate busySlots duration workStart workEnd"
  let ?wsh = "fst (parseTimeString workStart)" and ?wsm = "snd (parseTimeString workStart)"
  let ?weh = "fst (parseTimeString workEnd)" and ?wem = "snd (parseTimeString workEnd)"
  have t: "?f n = take (nat n) (?f N)" if "n \<le> N"
    using that by (rule findAvailableSlots_take)
  have same: "?f N = ?f n" if "n \<le> N" "int (length (?f n)) < n"
  proof -
    have "length (take (nat n) (?f N)) < nat n" using t[OF that(1)] that(2) by simp
    then have "length (?f N) < nat n" by (simp add: min_def split: if_splits)
    then show ?thesis using t[OF that(1)] by simp
  qed
  have len: "length (?f n) = min (nat n) (length (?f N))" if "n \<le> N"
    using t[OF that] by (metis length_take min.commute)
  have window: "list_ex (\<lambda>r. Start r \<le> u \<and> u < Start r + 30 * Minute) (?f n)"
    if "int (length (?f n)) < n" "startDate + int i * Day < endDate"
      "Weekday (startDate + int i * Day) \<noteq> Saturday"
      "Weekday (startDate + int i * Day) \<noteq> Sunday"
      "clampedStart startDate (startDate + int i * Day) ?wsh ?wsm \<le> u"
      "u + duration \<le> clampedEnd endDate (startDate + int i * Day) ?weh ?wem"
      "list_all (\<lambda>b. \<not> overlaps \<lparr>Start = u, End = u + duration\<rparr> b) busySlots"
    for i u
  proof -
    have "\<exists>r\<in>set (dateLoop startDate endDate busySlots duration ?wsh ?wsm ?weh ?wem n
        startDate []). Start r \<le> u \<and> u < Start r + 30 * Minute"
      by (rule dateLoop_complete[where k = i])
         (use that in \<open>simp_all add: findAvailableSlots_def list_all_iff\<close>)
    then show ?thesis by (simp add: findAvailableSlots_def list_ex_iff)
  qed
  have valid: "list_ex (\<lambda>r. Start r \<le> Start s \<and> Start s < Start r + 30 * Minute) (?f n)"
    if "int (length (?f n)) < n"
      "validSlot startDate endDate busySlots duration
         (parseTimeString workStart) (parseTimeString workEnd) s"
      "startDate + int j * Day < endDate"
      "(startDate + int j * Day) div Day = Start s div Day"
  proof -
    let ?c = "startDate + int j * Day"
    note v = that(2)[unfolded validSlot_def]
    have wd: "Weekday ?c = Weekday (Start s)" by (simp only: Weekday_def that(4))
    have dt: "Date ?c h mi = Date (Start s) h mi" for h mi by (simp only: Date_def that(4))
    have e: "End s = Start s + duration" using v by simp
    have lo: "clampedStart startDate ?c ?wsh ?wsm \<le> Start s"
      using v by (simp add: clampedStart_def dt)
    have hi: "Start s + duration \<le> clampedEnd endDate ?c ?weh ?wem"
      using v by (simp add: clampedEnd_def dt)
    have fr: "list_all (\<lambda>b. \<not> overlaps \<lparr>Start = Start s, End = Start s + duration\<rparr> b) busySlots"
      using v e by (simp add: overlaps_def list_all_iff)
    show ?thesis
      by (rule window[OF that(1) that(3) _ _ lo hi fr]) (use v wd in simp_all)
  qed
  show ?thesis using t same len window valid by blast
qed

theorem findAvailableSlots_prefix_count_witness:
  "(3::int) \<le> 13 \<and>
   findAvailableSlots exampleMonday (exampleMonday + Day)
       [\<lparr>Start = exampleMonday + 10 * Hour, End = exampleMonday + 11 * Hour\<rparr>] (60 * Minute)
       ''09:00'' ''17:00'' 3 =
     take (nat 3) (findAvailableSlots exampleMonday (exampleMonday + Day)
       [\<lparr>Start = exampleMonday + 10 * Hour, End = exampleMonday + 11 * Hour\<rparr>] (60 * Minute)
       ''09:00'' ''17:00'' 13) \<and>
   (13::int) \<le> 100 \<and>
   int (length (findAvailableSlots exampleMonday (exampleMonday + Day)
       [\<lparr>Start = exampleMonday + 10 * Hour, End = exampleMonday + 11 * Hour\<rparr>] (60 * Minute)
       ''09:00'' ''17:00'' 13)) < 13 \<and>
   findAvailableSlots exampleMonday (exampleMonday + Day)
       [\<lparr>Start = exampleMonday + 10 * Hour, End = exampleMonday + 11 * Hour\<rparr>] (60 * Minute)
       ''09:00'' ''17:00'' 100 =
     findAvailableSlots exampleMonday (exampleMonday + Day)
       [\<lparr>Start = exampleMonday + 10 * Hour, End = exampleMonday + 11 * Hour\<rparr>] (60 * Minute)
       ''09:00'' ''17:00'' 13 \<and>
   int (length (findAvailableSlots exampleMonday (exampleMonday + Day) []
       (60 * Minute) ''09:00'' ''17:00'' 100)) < 100 \<and>
   validSlot exampleMonday (exampleMonday + Day) [] (60 * Minute)
     (parseTimeString ''09:00'') (parseTimeString ''17:00'')
     \<lparr>Start = exampleMonday + 9 * Hour + 15 * Minute,
      End = exampleMonday + 10 * Hour + 15 * Minute\<rparr> \<and>
   exampleMonday + int 0 * Day < exampleMonday + Day \<and>
   (exampleMonday + int 0 * Day) div Day = (exampleMonday + 9 * Hour + 15 * Minute) div Day \<and>
   Weekday (exampleMonday + int 0 * Day) \<noteq> Saturday \<and>
   Weekday (exampleMonday + int 0 * Day) \<noteq> Sunday \<and>
   clampedStart exampleMonday (exampleMonday + int 0 * Day)
     (fst (parseTimeString ''09:00'')) (snd (parseTimeString ''09:00''))
     \<le> exampleMonday + 9 * Hour + 15 * Minute \<and>
   exampleMonday + 9 * Hour + 15 * Minute + 60 * Minute
     \<le> clampedEnd (exampleMonday + Day) (exampleMonday + int 0 * Day)
         (fst (parseTimeString ''17:00'')) (snd (parseTimeString ''17:00'')) \<and>
   list_all (\<lambda>b. \<not> overlaps \<lparr>Start = exampleMonday + 9 * Hour + 15 * Minute,
       End = exampleMonday + 9 * Hour + 15 * Minute + 60 * Minute\<rparr> b) [] \<and>
   list_ex (\<lambda>r. Start r \<le> exampleMonday + 9 * Hour + 15 * Minute \<and>
                exampleMonday + 9 * Hour + 15 * Minute < Start r + 30 * Minute)
     (findAvailableSlots exampleMonday (exampleMonday + Day) []
       (60 * Minute) ''09:00'' ''17:00'' 100) \<and>
   list_ex (\<lambda>r. Start r \<le> Start \<lparr>Start = exampleMonday + 9 * Hour + 15 * Minute,
                  End = exampleMonday + 10 * Hour + 15 * Minute\<rparr> \<and>
                Start \<lparr>Start = exampleMonday + 9 * Hour + 15 * Minute,
                  End = exampleMonday + 10 * Hour + 15 * Minute\<rparr> < Start r + 30 * Minute)
     (findAvailableSlots exampleMonday (exampleMonday + Day) []
       (60 * Minute) ''09:00'' ''17:00'' 100)"
proof -
  let ?busy = "[\<lparr>Start = exampleMonday + 10 * Hour, End = exampleMonday + 11 * Hour\<rparr>]"
  let ?f = "findAvailableSlots exampleMonday (exampleMonday + Day) ?busy (60 * Minute)
       ''09:00'' ''17:00''"
  let ?g = "findAvailableSlots exampleMonday (exampleMonday + Day) [] (60 * Minute)
       ''09:00'' ''17:00''"
  let ?t = "exampleMonday + 9 * Hour + 15 * Minute"
  let ?s = "\<lparr>Start = exampleMonday + 9 * Hour + 15 * Minute,
      End = exampleMonday + 10 * Hour + 15 * Minute\<rparr>"
  have a: "(3::int) \<le> 13" and b: "(13::int) \<le> 100" by simp_all
  have c: "int (length (?f 13)) < 13"
    using example13[OF exampleMonday_is_Monday] length_exampleSlots[of exampleMonday] by simp
  have 1: "?f 3 = take (nat 3) (?f 13)"
    using a findAvailableSlots_prefix_count[of 3 13 exampleMonday "exampleMonday + Day" ?busy
        "60 * Minute" "''09:00''" "''17:00''"] by blast
  have 2: "?f 100 = ?f 13"
    using b c findAvailableSlots_prefix_count[of 13 100 exampleMonday "exampleMonday + Day" ?busy
        "60 * Minute" "''09:00''" "''17:00''"] by blast
  have d: "int (length (?g 100)) < 100" by code_simp
  have v: "validSlot exampleMonday (exampleMonday + Day) [] (60 * Minute)
     (parseTimeString ''09:00'') (parseTimeString ''17:00'') ?s" by code_simp
  have e: "exampleMonday + int 0 * Day < exampleMonday + Day"
    "(exampleMonday + int 0 * Day) div Day = ?t div Day"
    "Weekday (exampleMonday + int 0 * Day) \<noteq> Saturday"
    "Weekday (exampleMonday + int 0 * Day) \<noteq> Sunday"
    by (simp_all add: exampleMonday_def Weekday_def Saturday_def Sunday_def
        Day_def Hour_def Minute_def)
  have w: "clampedStart exampleMonday (exampleMonday + int 0 * Day)
     (fst (parseTimeString ''09:00'')) (snd (parseTimeString ''09:00'')) \<le> ?t"
    "?t + 60 * Minute
     \<le> clampedEnd (exampleMonday + Day) (exampleMonday + int 0 * Day)
         (fst (parseTimeString ''17:00'')) (snd (parseTimeString ''17:00''))"
    "list_all (\<lambda>b. \<not> overlaps \<lparr>Start = ?t, End = ?t + 60 * Minute\<rparr> b) []"
    by (simp_all add: parse_0900 parse_1700 clampedStart_def clampedEnd_def Date_def
        exampleMonday_def Day_def Hour_def Minute_def)
  note inst = findAvailableSlots_prefix_count[where n = 100 and N = 100
      and startDate = exampleMonday and endDate = "exampleMonday + Day" and busySlots = "[]"
      and duration = "60 * Minute" and workStart = "''09:00''" and workEnd = "''17:00''"
      and k = 0 and t = "?t" and s = "?s" and j = 0]
  have 3: "list_ex (\<lambda>r. Start r \<le> ?t \<and> ?t < Start r + 30 * Minute) (?g 100)"
    by (rule inst[THEN conjunct2, THEN conjunct2, THEN conjunct1, THEN mp])
       (intro conjI d e w)
  have 4: "list_ex (\<lambda>r. Start r \<le> Start ?s \<and> Start ?s < Start r + 30 * Minute) (?g 100)"
    by (rule inst[THEN conjunct2, THEN conjunct2, THEN conjunct2, THEN mp])
       (use d v e in simp)
  show ?thesis by (intro conjI a b c 1 2 d v e w 3 4)
qed

text \<open>
  The slots counted are those that the scan visits, not all slots that satisfy the
  contract: on a Monday without busy intervals the search returns fewer than the 100
  slots asked for, and yet the slot from 09:15 to 10:15 is valid and is not returned.
\<close>

theorem findAvailableSlots_all_valid_counterexample:
  "int (length (findAvailableSlots exampleMonday (exampleMonday + Day) []
         (60 * Minute) ''09:00'' ''17:00'' 100)) < 100 \<and>
   validSlot exampleMonday (exampleMonday + Day) [] (60 * Minute)
     (parseTimeString ''09:00'') (parseTimeString ''17:00'')
     \<lparr>Start = exampleMonday + 9 * Hour + 15 * Minute,
      End = exampleMonday + 10 * Hour + 15 * Minute\<rparr> \<and>
   \<lparr>Start = exampleMonday + 9 * Hour + 15 * Minute,
      End = exampleMonday + 10 * Hour + 15 * Minute\<rparr> \<notin>
     set (findAvailableSlots exampleMonday (exampleMonday + Day) []
         (60 * Minute) ''09:00'' ''17:00'' 100)"
  by code_simp

section \<open>The days of the loop\<close>

lemma visitedDates_unfold:
  "visitedDates startDate endDate busy d wsh wsm weh wem m cd acc =
     (if cd < endDate \<and> int (length acc) < m
      then cd #
           (if Weekday cd = Saturday \<or> Weekday cd = Sunday
            then visitedDates startDate endDate busy d wsh wsm weh wem m (cd + Day) acc
            else visitedDates startDate endDate busy d wsh wsm weh wem m (cd + Day)
                   (dayLoop (clampedEnd endDate cd weh wem) busy d m
                      (clampedStart startDate cd wsh wsm) acc))
      else [])"
  by (subst visitedDates.simps) (simp add: Let_def clampedStart_def clampedEnd_def AddDate_def)

lemma shift_dates:
  "cd # map (\<lambda>k. cd + Day + int k * Day) [0..<n] = map (\<lambda>k. cd + int k * Day) [0..<Suc n]"
  by (simp add: map_upt_Suc algebra_simps del: upt_Suc)

lemma visitedDates_shape:
  "visitedDates startDate endDate busy d wsh wsm weh wem m cd acc =
     map (\<lambda>k. cd + int k * Day)
       [0..<length (visitedDates startDate endDate busy d wsh wsm weh wem m cd acc)] \<and>
   (\<forall>c\<in>set (visitedDates startDate endDate busy d wsh wsm weh wem m cd acc). c < endDate)"
proof (induction cd acc rule: dateLoop_induct[where startDate = startDate and endDate = endDate
      and busy = busy and d = d and wsh = wsh and wsm = wsm and weh = weh and wem = wem and m = m])
  case (step cd acc)
  show ?case
  proof (cases "cd < endDate \<and> int (length acc) < m")
    case False
    then show ?thesis by (subst (1 2 3) visitedDates_unfold) auto
  next
    case c: True
    define acc' where "acc' = (if Weekday cd = Saturday \<or> Weekday cd = Sunday then acc
       else dayLoop (clampedEnd endDate cd weh wem) busy d m (clampedStart startDate cd wsh wsm) acc)"
    let ?V = "visitedDates startDate endDate busy d wsh wsm weh wem m (cd + Day) acc'"
    have V: "visitedDates startDate endDate busy d wsh wsm weh wem m cd acc = cd # ?V"
      using c by (subst visitedDates_unfold) (simp add: acc'_def)
    have IH: "?V = map (\<lambda>k. cd + Day + int k * Day) [0..<length ?V] \<and> (\<forall>c\<in>set ?V. c < endDate)"
      using step c unfolding acc'_def by (cases "Weekday cd = Saturday \<or> Weekday cd = Sunday") auto
    have "cd # ?V = cd # map (\<lambda>k. cd + Day + int k * Day) [0..<length ?V]"
      using IH by (intro arg_cong[where f = "(#) cd"]) blast
    also have "\<dots> = map (\<lambda>k. cd + int k * Day) [0..<Suc (length ?V)]"
      by (rule shift_dates)
    finally have A0: "cd # ?V = map (\<lambda>k. cd + int k * Day) [0..<Suc (length ?V)]" .
    have A: "cd # ?V = map (\<lambda>k. cd + int k * Day) [0..<length (cd # ?V)]"
      unfolding length_Cons by (rule A0)
    have B: "\<forall>c\<in>set (cd # ?V). c < endDate" using IH c by simp
    show ?thesis unfolding V by (rule conjI[OF A B])
  qed
qed

lemma visitedDates_complete:
  "int (length (dateLoop startDate endDate busy d wsh wsm weh wem m cd acc)) < m \<Longrightarrow>
   cd + int k * Day < endDate \<Longrightarrow>
   cd + int k * Day \<in> set (visitedDates startDate endDate busy d wsh wsm weh wem m cd acc)"
proof (induction cd acc arbitrary: k rule: dateLoop_induct[where startDate = startDate and endDate = endDate
      and busy = busy and d = d and wsh = wsh and wsm = wsm and weh = weh and wem = wem and m = m])
  case (step cd acc)
  have c: "cd < endDate \<and> int (length acc) < m"
  proof (rule ccontr)
    assume n: "\<not> (cd < endDate \<and> int (length acc) < m)"
    then have "dateLoop startDate endDate busy d wsh wsm weh wem m cd acc = acc"
      by (subst dateLoop_unfold) auto
    then have "int (length acc) < m" using step.prems(1) by simp
    moreover have "cd < endDate" using step.prems(2) Day_pos
      by (smt (verit) mult_nonneg_nonneg of_nat_0_le_iff)
    ultimately show False using n by simp
  qed
  define acc' where "acc' = (if Weekday cd = Saturday \<or> Weekday cd = Sunday then acc
       else dayLoop (clampedEnd endDate cd weh wem) busy d m (clampedStart startDate cd wsh wsm) acc)"
  let ?V = "visitedDates startDate endDate busy d wsh wsm weh wem m (cd + Day) acc'"
  have V: "visitedDates startDate endDate busy d wsh wsm weh wem m cd acc = cd # ?V"
    using c by (subst visitedDates_unfold) (simp add: acc'_def)
  have D: "dateLoop startDate endDate busy d wsh wsm weh wem m cd acc =
     dateLoop startDate endDate busy d wsh wsm weh wem m (cd + Day) acc'"
    using c by (subst dateLoop_unfold) (simp add: acc'_def)
  show ?case
  proof (cases k)
    case 0
    then show ?thesis unfolding V by simp
  next
    case (Suc j)
    have lt: "cd + Day + int j * Day < endDate"
      using step.prems(2) Suc by (simp add: algebra_simps)
    have "cd + Day + int j * Day \<in> set ?V"
    proof (cases "Weekday cd = Saturday \<or> Weekday cd = Sunday")
      case True
      then show ?thesis
        using step.IH(1)[OF _ _ True _ lt] c step.prems(1) D by (simp add: acc'_def)
    next
      case False
      then show ?thesis
        using step.IH(2)[OF _ _ _ _ _ lt] c step.prems(1) D by (simp add: acc'_def)
    qed
    then show ?thesis unfolding V using Suc by (simp add: algebra_simps)
  qed
qed

lemma mod_shift: "(t + int k * Day) mod Day = t mod Day"
  by simp

lemma div_shift: "(t + int k * Day) div Day = t div Day + int k"
  using Day_pos by simp

text \<open>
  C5, as the code has it.  The outer loop visits the instants \<open>startDate + k\<close> days for
  \<open>k = 0, 1, 2, \<dots>\<close>, each of them before \<open>endDate\<close>; when the search returns fewer
  than \<open>maxResults\<close> slots it visits every such instant.  A date on the day of
  \<open>endDate\<close> is visited only if the time of day of \<open>endDate\<close> is later than that of
  \<open>startDate\<close>, and then it is visited whenever the range is not empty and the search is
  not cut short.  So with both ends at midnight the day of \<open>endDate\<close> is not scanned.
\<close>

theorem loopDates_steps:
  "loopDates startDate endDate busySlots duration workStart workEnd maxResults =
     map (\<lambda>k. startDate + int k * Day)
       [0..<length (loopDates startDate endDate busySlots duration workStart workEnd maxResults)] \<and>
   list_all (\<lambda>c. c < endDate)
     (loopDates startDate endDate busySlots duration workStart workEnd maxResults) \<and>
   (int (length (findAvailableSlots startDate endDate busySlots duration workStart workEnd
        maxResults)) < maxResults \<and> startDate + int k * Day < endDate \<longrightarrow>
      startDate + int k * Day \<in>
        set (loopDates startDate endDate busySlots duration workStart workEnd maxResults)) \<and>
   (list_ex (\<lambda>c. c div Day = endDate div Day)
      (loopDates startDate endDate busySlots duration workStart workEnd maxResults) \<longrightarrow>
      startDate mod Day < endDate mod Day) \<and>
   (int (length (findAvailableSlots startDate endDate busySlots duration workStart workEnd
        maxResults)) < maxResults \<and> startDate < endDate \<and> startDate mod Day < endDate mod Day \<longrightarrow>
      list_ex (\<lambda>c. c div Day = endDate div Day)
        (loopDates startDate endDate busySlots duration workStart workEnd maxResults))"
proof -
  let ?V = "loopDates startDate endDate busySlots duration workStart workEnd maxResults"
  let ?r = "findAvailableSlots startDate endDate busySlots duration workStart workEnd maxResults"
  note shape = visitedDates_shape[of startDate endDate busySlots duration
      "fst (parseTimeString workStart)" "snd (parseTimeString workStart)"
      "fst (parseTimeString workEnd)" "snd (parseTimeString workEnd)" maxResults startDate "[]",
      folded loopDates_def]
  have 1: "?V = map (\<lambda>k. startDate + int k * Day) [0..<length ?V]" using shape by blast
  have 2: "list_all (\<lambda>c. c < endDate) ?V" using shape by (simp add: list_all_iff)
  have 3: "startDate + int j * Day \<in> set ?V"
    if "int (length ?r) < maxResults" "startDate + int j * Day < endDate" for j
    using that unfolding loopDates_def findAvailableSlots_def Let_def
    by (intro visitedDates_complete)
  have 4: "startDate mod Day < endDate mod Day"
    if "list_ex (\<lambda>c. c div Day = endDate div Day) ?V"
  proof -
    from that obtain c where c: "c \<in> set ?V" "c div Day = endDate div Day"
      by (auto simp: list_ex_iff)
    from c(1) 1 obtain j where j: "c = startDate + int j * Day"
      by (metis (no_types, lifting) in_set_conv_nth length_map nth_map)
    have lt: "c < endDate" using 2 c(1) by (simp add: list_all_iff)
    have "c mod Day < endDate mod Day"
      using lt c(2) by (metis add_less_cancel_left mult_div_mod_eq)
    then show ?thesis unfolding j mod_shift .
  qed
  have 5: "list_ex (\<lambda>c. c div Day = endDate div Day) ?V"
    if "int (length ?r) < maxResults" "startDate < endDate" "startDate mod Day < endDate mod Day"
  proof -
    have "startDate div Day \<le> endDate div Day"
      using that(2) Day_pos by (simp add: zdiv_mono1)
    then obtain j where j: "endDate div Day = startDate div Day + int j"
      by (metis zle_iff_zadd)
    have d: "(startDate + int j * Day) div Day = endDate div Day"
      unfolding div_shift j by simp
    have "startDate + int j * Day = Day * (endDate div Day) + startDate mod Day"
      using d mod_shift[of startDate j] by (metis mult_div_mod_eq)
    also have "\<dots> < Day * (endDate div Day) + endDate mod Day"
      using that(3) by (rule add_strict_left_mono)
    also have "\<dots> = endDate" by simp
    finally have "startDate + int j * Day \<in> set ?V" using 3[OF that(1)] by blast
    then show ?thesis using d by (auto simp: list_ex_iff)
  qed
  show ?thesis using 1 2 3 4 5 by blast
qed

theorem loopDates_steps_witness:
  "int (length (findAvailableSlots (exampleMonday + 9 * Hour) (exampleMonday + Day + 17 * Hour) []
      (60 * Minute) ''09:00'' ''17:00'' 100)) < 100 \<and>
   exampleMonday + 9 * Hour + int 1 * Day < exampleMonday + Day + 17 * Hour \<and>
   exampleMonday + 9 * Hour < exampleMonday + Day + 17 * Hour \<and>
   (exampleMonday + 9 * Hour) mod Day < (exampleMonday + Day + 17 * Hour) mod Day \<and>
   exampleMonday + 9 * Hour + int 1 * Day \<in>
     set (loopDates (exampleMonday + 9 * Hour) (exampleMonday + Day + 17 * Hour) []
      (60 * Minute) ''09:00'' ''17:00'' 100) \<and>
   list_ex (\<lambda>c. c div Day = (exampleMonday + Day + 17 * Hour) div Day)
     (loopDates (exampleMonday + 9 * Hour) (exampleMonday + Day + 17 * Hour) []
      (60 * Minute) ''09:00'' ''17:00'' 100)"
proof -
  have a: "int (length (findAvailableSlots (exampleMonday + 9 * Hour)
      (exampleMonday + Day + 17 * Hour) [] (60 * Minute) ''09:00'' ''17:00'' 100)) < 100"
    by code_simp
  have b: "exampleMonday + 9 * Hour + int 1 * Day < exampleMonday + Day + 17 * Hour"
    "exampleMonday + 9 * Hour < exampleMonday + Day + 17 * Hour"
    "(exampleMonday + 9 * Hour) mod Day < (exampleMonday + Day + 17 * Hour) mod Day"
    by (simp_all add: exampleMonday_def Day_def Hour_def Minute_def)
  show ?thesis
    using a b
      loopDates_steps[of "exampleMonday + 9 * Hour" "exampleMonday + Day + 17 * Hour" "[]"
        "60 * Minute" "''09:00''" "''17:00''" 100 1]
    by blast
qed

text \<open>
  The day that contains the end of the range can be scanned: for the range from Monday
  09:00 to Tuesday 17:00 the loop visits Tuesday and a slot of Tuesday is returned, and
  a range from 09:00 to 12:00 of one Monday returns a slot of that Monday.
\<close>

theorem end_day_scanned_counterexample:
  "list_ex (\<lambda>c. c div Day = (exampleMonday + Day + 17 * Hour) div Day)
     (loopDates (exampleMonday + 9 * Hour) (exampleMonday + Day + 17 * Hour) []
      (60 * Minute) ''09:00'' ''17:00'' 100) \<and>
   list_ex (\<lambda>s. Start s div Day = (exampleMonday + Day + 17 * Hour) div Day)
     (findAvailableSlots (exampleMonday + 9 * Hour) (exampleMonday + Day + 17 * Hour) []
      (60 * Minute) ''09:00'' ''17:00'' 100) \<and>
   findAvailableSlots (exampleMonday + 9 * Hour) (exampleMonday + 12 * Hour) []
      (60 * Minute) ''09:00'' ''17:00'' 1 =
     [\<lparr>Start = exampleMonday + 9 * Hour, End = exampleMonday + 10 * Hour\<rparr>]"
  by code_simp

section \<open>The handler and its failures\<close>

lemma calendarLoop_skip:
  "calendarLoop timeParse listEvents roomFilter startDate endDate calendars acc =
   calendarLoop timeParse listEvents roomFilter startDate endDate
     (filter (\<lambda>c. listEvents c startDate endDate \<noteq> None) calendars) acc"
  by (induction calendars arbitrary: acc) (auto split: option.splits)

lemma calendarLoop_failed_as_empty:
  "calendarLoop timeParse
     (\<lambda>c s e. case listEvents c s e of None \<Rightarrow> Some [] | Some items \<Rightarrow> Some items)
     roomFilter startDate endDate calendars acc =
   calendarLoop timeParse listEvents roomFilter startDate endDate calendars acc"
  by (induction calendars arbitrary: acc) (auto split: option.splits)

lemma findTimeSlotFor_not_error:
  "findTimeSlotFor timeParse listEvents args startDate endDate calendars \<noteq> NewToolResultError msg"
  by (simp add: findTimeSlotFor_def Let_def)

lemma eventLoop_collects:
  "eventLoop timeParse roomFilter calendarId items acc =
     (fst acc @ map (eventSlot timeParse) (filter (qualifies roomFilter) items),
      snd acc @ map (eventDetail timeParse calendarId) (filter (qualifies roomFilter) items))"
proof (induction items arbitrary: acc)
  case Nil
  then show ?case by simp
next
  case (Cons ev items)
  obtain ts ds where acc: "acc = (ts, ds)" by (cases acc)
  have step: "eventLoop timeParse roomFilter calendarId (ev # items) (ts, ds) =
     eventLoop timeParse roomFilter calendarId items
       (if qualifies roomFilter ev
        then (ts @ [eventSlot timeParse ev], ds @ [eventDetail timeParse calendarId ev])
        else (ts, ds))"
    by (auto simp: qualifies_def eventSlot_def eventDetail_def Let_def)
  show ?case
    unfolding acc step Cons.IH by simp
qed

lemma calendarLoop_collects:
  "calendarLoop timeParse listEvents roomFilter startDate endDate calendars acc =
     (fst acc @ busySlotsOf timeParse listEvents roomFilter startDate endDate calendars,
      snd acc @ busyDetailsOf timeParse listEvents roomFilter startDate endDate calendars)"
proof (induction calendars arbitrary: acc)
  case Nil
  then show ?case by (simp add: busySlotsOf_def busyDetailsOf_def)
next
  case (Cons c calendars)
  show ?case
  proof (cases "listEvents c startDate endDate")
    case None
    then show ?thesis
      by (simp add: Cons.IH busySlotsOf_def busyDetailsOf_def readable_def)
  next
    case (Some items)
    then show ?thesis
      by (simp add: Cons.IH eventLoop_collects busySlotsOf_def busyDetailsOf_def
          readable_def eventsOf_def)
  qed
qed

text \<open>
  C9: a calendar whose events cannot be listed is skipped, and exactly the calendars
  that can be read are collected.  The busy intervals and busy details that the loop
  over the calendars collects are those of the qualifying events of the readable
  calendars, in order, and the handler returns the slots found against the merge of
  these intervals together with these details.  So the result is the same as for the
  readable calendars alone; a failing calendar counts like a calendar without events;
  and no failure of the calendar service turns the result into an error.  With the
  three calendars primary, alice and bob, of which alice fails, the result holds the
  events of primary and bob.  Where two lists of calendars are compared, the arguments
  are the same, so the echo of the \<^verbatim>\<open>guests\<close> argument in the result is the same
  on both sides.
\<close>

theorem calendar_failures_skipped:
  "calendarLoop timeParse listEvents roomFilter startDate endDate calendars acc =
     (fst acc @ busySlotsOf timeParse listEvents roomFilter startDate endDate calendars,
      snd acc @ busyDetailsOf timeParse listEvents roomFilter startDate endDate calendars) \<and>
   (snd (timeParse (start_date args)) \<and> snd (timeParse (end_date args)) \<longrightarrow>
      calendarFindTimeSlotHandler timeParse listEvents args =
        NewToolResultText
          \<lparr>available_slots =
             findAvailableSlots (fst (timeParse (start_date args))) (fst (timeParse (end_date args)))
               (mergeTimeSlots
                  (busySlotsOf timeParse listEvents (room args)
                     (fst (timeParse (start_date args))) (fst (timeParse (end_date args)))
                     (calendarsToCheck (guests args))))
               (duration_minutes args * Minute)
               (if working_hours_start args = [] then ''09:00'' else working_hours_start args)
               (if working_hours_end args = [] then ''17:00'' else working_hours_end args)
               (if max_results args \<le> 0 then 5 else max_results args),
           result_duration_minutes = duration_minutes args,
           busy_times =
             busyDetailsOf timeParse listEvents (room args)
               (fst (timeParse (start_date args))) (fst (timeParse (end_date args)))
               (calendarsToCheck (guests args)),
           guests_checked = (if guests args \<noteq> [] then Some (guests args) else None),
           room_filter = (if room args \<noteq> [] then Some (room args) else None)\<rparr>) \<and>
   calendarLoop timeParse listEvents roomFilter startDate endDate calendars acc =
     calendarLoop timeParse listEvents roomFilter startDate endDate
       (filter (\<lambda>c. listEvents c startDate endDate \<noteq> None) calendars) acc \<and>
   findTimeSlotFor timeParse listEvents args startDate endDate calendars =
     findTimeSlotFor timeParse listEvents args startDate endDate
       (filter (\<lambda>c. listEvents c startDate endDate \<noteq> None) calendars) \<and>
   calendarFindTimeSlotHandler timeParse listEvents args =
     calendarFindTimeSlotHandler timeParse
       (\<lambda>c s e. case listEvents c s e of None \<Rightarrow> Some [] | Some items \<Rightarrow> Some items) args \<and>
   (snd (timeParse (start_date args)) \<and> snd (timeParse (end_date args)) \<longrightarrow>
      calendarFindTimeSlotHandler timeParse listEvents args \<noteq> NewToolResultError msg)"
proof (intro conjI impI)
  show "calendarLoop timeParse listEvents roomFilter startDate endDate calendars acc =
     (fst acc @ busySlotsOf timeParse listEvents roomFilter startDate endDate calendars,
      snd acc @ busyDetailsOf timeParse listEvents roomFilter startDate endDate calendars)"
    by (rule calendarLoop_collects)
  show "calendarLoop timeParse listEvents roomFilter startDate endDate calendars acc =
     calendarLoop timeParse listEvents roomFilter startDate endDate
       (filter (\<lambda>c. listEvents c startDate endDate \<noteq> None) calendars) acc"
    by (rule calendarLoop_skip)
  show "findTimeSlotFor timeParse listEvents args startDate endDate calendars =
     findTimeSlotFor timeParse listEvents args startDate endDate
       (filter (\<lambda>c. listEvents c startDate endDate \<noteq> None) calendars)"
    unfolding findTimeSlotFor_def
    by (subst calendarLoop_skip) (rule refl)
  show "calendarFindTimeSlotHandler timeParse listEvents args =
     calendarFindTimeSlotHandler timeParse
       (\<lambda>c s e. case listEvents c s e of None \<Rightarrow> Some [] | Some items \<Rightarrow> Some items) args"
    unfolding calendarFindTimeSlotHandler_def findTimeSlotFor_def
    by (simp only: calendarLoop_failed_as_empty)
  show "calendarFindTimeSlotHandler timeParse listEvents args \<noteq> NewToolResultError msg"
    if "snd (timeParse (start_date args)) \<and> snd (timeParse (end_date args))"
    using that by (simp add: calendarFindTimeSlotHandler_def findTimeSlotFor_not_error)
  show "calendarFindTimeSlotHandler timeParse listEvents args =
        NewToolResultText
          \<lparr>available_slots =
             findAvailableSlots (fst (timeParse (start_date args))) (fst (timeParse (end_date args)))
               (mergeTimeSlots
                  (busySlotsOf timeParse listEvents (room args)
                     (fst (timeParse (start_date args))) (fst (timeParse (end_date args)))
                     (calendarsToCheck (guests args))))
               (duration_minutes args * Minute)
               (if working_hours_start args = [] then ''09:00'' else working_hours_start args)
               (if working_hours_end args = [] then ''17:00'' else working_hours_end args)
               (if max_results args \<le> 0 then 5 else max_results args),
           result_duration_minutes = duration_minutes args,
           busy_times =
             busyDetailsOf timeParse listEvents (room args)
               (fst (timeParse (start_date args))) (fst (timeParse (end_date args)))
               (calendarsToCheck (guests args)),
           guests_checked = (if guests args \<noteq> [] then Some (guests args) else None),
           room_filter = (if room args \<noteq> [] then Some (room args) else None)\<rparr>"
    if "snd (timeParse (start_date args)) \<and> snd (timeParse (end_date args))"
    using that
    by (simp add: calendarFindTimeSlotHandler_def findTimeSlotFor_def Let_def
        calendarLoop_collects)
qed

theorem calendar_failures_skipped_witness:
  "calendarsToCheck (guests exampleArguments) =
     [''primary'', ''alice@example.com'', ''bob@example.com''] \<and>
   filter (\<lambda>c. exampleListEvents c exampleMonday (exampleMonday + Day) \<noteq> None)
     [''primary'', ''alice@example.com'', ''bob@example.com''] =
     [''primary'', ''bob@example.com''] \<and>
   findTimeSlotFor exampleTimeParse exampleListEvents exampleArguments exampleMonday
     (exampleMonday + Day) [''primary'', ''alice@example.com'', ''bob@example.com''] =
   findTimeSlotFor exampleTimeParse exampleListEvents exampleArguments exampleMonday
     (exampleMonday + Day) [''primary'', ''bob@example.com''] \<and>
   snd (exampleTimeParse (start_date exampleArguments)) \<and>
   snd (exampleTimeParse (end_date exampleArguments)) \<and>
   calendarFindTimeSlotHandler exampleTimeParse exampleListEvents exampleArguments \<noteq>
     NewToolResultError ''failed to list events'' \<and>
   calendarLoop exampleTimeParse exampleListEvents [] exampleMonday (exampleMonday + Day)
     [''primary'', ''alice@example.com'', ''bob@example.com''] ([], []) =
     ([\<lparr>Start = exampleMonday + 10 * Hour, End = exampleMonday + 11 * Hour\<rparr>,
       \<lparr>Start = exampleMonday + 14 * Hour, End = exampleMonday + 15 * Hour\<rparr>],
      [\<lparr>busyTime.Start = exampleMonday + 10 * Hour, End = exampleMonday + 11 * Hour,
        Summary = ''Standup'', Organizer = ''me@example.com'', CalendarId = ''primary''\<rparr>,
       \<lparr>busyTime.Start = exampleMonday + 14 * Hour, End = exampleMonday + 15 * Hour,
        Summary = ''Review'', Organizer = [], CalendarId = ''bob@example.com''\<rparr>]) \<and>
   calendarFindTimeSlotHandler exampleTimeParse exampleListEvents exampleArguments =
     NewToolResultText
       \<lparr>available_slots =
          [\<lparr>Start = exampleMonday + 9 * Hour, End = exampleMonday + 10 * Hour\<rparr>,
           \<lparr>Start = exampleMonday + 11 * Hour, End = exampleMonday + 12 * Hour\<rparr>],
        result_duration_minutes = 60,
        busy_times =
          [\<lparr>busyTime.Start = exampleMonday + 10 * Hour, End = exampleMonday + 11 * Hour,
            Summary = ''Standup'', Organizer = ''me@example.com'', CalendarId = ''primary''\<rparr>,
           \<lparr>busyTime.Start = exampleMonday + 14 * Hour, End = exampleMonday + 15 * Hour,
            Summary = ''Review'', Organizer = [], CalendarId = ''bob@example.com''\<rparr>],
        guests_checked = Some ''alice@example.com, bob@example.com'',
        room_filter = None\<rparr>"
proof -
  let ?cals = "[''primary'', ''alice@example.com'', ''bob@example.com'']"
  have c: "calendarsToCheck (guests exampleArguments) = ?cals"
    by code_simp
  have f: "filter (\<lambda>c. exampleListEvents c exampleMonday (exampleMonday + Day) \<noteq> None) ?cals =
     [''primary'', ''bob@example.com'']"
    by (simp add: exampleListEvents_def)
  have p: "snd (exampleTimeParse (start_date exampleArguments)) \<and>
    snd (exampleTimeParse (end_date exampleArguments))"
    by (simp add: exampleTimeParse_def exampleArguments_def)
  have bs: "busySlotsOf exampleTimeParse exampleListEvents [] exampleMonday (exampleMonday + Day)
      ?cals =
     [\<lparr>Start = exampleMonday + 10 * Hour, End = exampleMonday + 11 * Hour\<rparr>,
      \<lparr>Start = exampleMonday + 14 * Hour, End = exampleMonday + 15 * Hour\<rparr>]"
    by code_simp
  have bd: "busyDetailsOf exampleTimeParse exampleListEvents [] exampleMonday (exampleMonday + Day)
      ?cals =
     [\<lparr>busyTime.Start = exampleMonday + 10 * Hour, End = exampleMonday + 11 * Hour,
        Summary = ''Standup'', Organizer = ''me@example.com'', CalendarId = ''primary''\<rparr>,
      \<lparr>busyTime.Start = exampleMonday + 14 * Hour, End = exampleMonday + 15 * Hour,
        Summary = ''Review'', Organizer = [], CalendarId = ''bob@example.com''\<rparr>]"
    by code_simp
  have out: "calendarFindTimeSlotHandler exampleTimeParse exampleListEvents exampleArguments =
     NewToolResultText
       \<lparr>available_slots =
          [\<lparr>Start = exampleMonday + 9 * Hour, End = exampleMonday + 10 * Hour\<rparr>,
           \<lparr>Start = exampleMonday + 11 * Hour, End = exampleMonday + 12 * Hour\<rparr>],
        result_duration_minutes = 60,
        busy_times =
          [\<lparr>busyTime.Start = exampleMonday + 10 * Hour, End = exampleMonday + 11 * Hour,
            Summary = ''Standup'', Organizer = ''me@example.com'', CalendarId = ''primary''\<rparr>,
           \<lparr>busyTime.Start = exampleMonday + 14 * Hour, End = exampleMonday + 15 * Hour,
            Summary = ''Review'', Organizer = [], CalendarId = ''bob@example.com''\<rparr>],
        guests_checked = Some ''alice@example.com, bob@example.com'',
        room_filter = None\<rparr>"
    by code_simp
  note t = calendar_failures_skipped[of exampleTimeParse exampleListEvents "[]" exampleMonday
      "exampleMonday + Day" ?cals "([], [])"
      exampleArguments "''failed to list events''", unfolded f bs bd]
  have cl: "calendarLoop exampleTimeParse exampleListEvents [] exampleMonday (exampleMonday + Day)
     ?cals ([], []) =
     ([\<lparr>Start = exampleMonday + 10 * Hour, End = exampleMonday + 11 * Hour\<rparr>,
       \<lparr>Start = exampleMonday + 14 * Hour, End = exampleMonday + 15 * Hour\<rparr>],
      [\<lparr>busyTime.Start = exampleMonday + 10 * Hour, End = exampleMonday + 11 * Hour,
        Summary = ''Standup'', Organizer = ''me@example.com'', CalendarId = ''primary''\<rparr>,
       \<lparr>busyTime.Start = exampleMonday + 14 * Hour, End = exampleMonday + 15 * Hour,
        Summary = ''Review'', Organizer = [], CalendarId = ''bob@example.com''\<rparr>])"
    using t[THEN conjunct1] by simp
  have eq: "findTimeSlotFor exampleTimeParse exampleListEvents exampleArguments exampleMonday
     (exampleMonday + Day) ?cals =
   findTimeSlotFor exampleTimeParse exampleListEvents exampleArguments exampleMonday
     (exampleMonday + Day) [''primary'', ''bob@example.com'']"
    using t by blast
  have ne: "calendarFindTimeSlotHandler exampleTimeParse exampleListEvents exampleArguments \<noteq>
     NewToolResultError ''failed to list events''"
    using t p by blast
  show ?thesis using c f p cl eq ne out by blast
qed

text \<open>
  C3, as the code has it.  The handler returns an error only when \<^verbatim>\<open>start_date\<close> or
  \<^verbatim>\<open>end_date\<close> cannot be parsed; no duration and no order of the two dates is
  rejected.  When the end of the range is not after its start, the body of the day loop
  is never entered and the list of slots is empty.
\<close>

theorem handler_rejections:
  "(calendarFindTimeSlotHandler timeParse listEvents args = NewToolResultError msg \<longleftrightarrow>
      (\<not> snd (timeParse (start_date args)) \<and> msg = ''Invalid start_date format'') \<or>
      (snd (timeParse (start_date args)) \<and> \<not> snd (timeParse (end_date args)) \<and>
         msg = ''Invalid end_date format'')) \<and>
   (endDate \<le> startDate \<longrightarrow>
      loopDates startDate endDate busySlots duration workStart workEnd maxResults = [] \<and>
      findAvailableSlots startDate endDate busySlots duration workStart workEnd maxResults = [])"
proof (intro conjI impI)
  show "calendarFindTimeSlotHandler timeParse listEvents args = NewToolResultError msg \<longleftrightarrow>
      (\<not> snd (timeParse (start_date args)) \<and> msg = ''Invalid start_date format'') \<or>
      (snd (timeParse (start_date args)) \<and> \<not> snd (timeParse (end_date args)) \<and>
         msg = ''Invalid end_date format'')"
    using findTimeSlotFor_not_error[of timeParse listEvents args _ _ _ msg]
    by (auto simp: calendarFindTimeSlotHandler_def)
next
  assume "endDate \<le> startDate"
  then show "loopDates startDate endDate busySlots duration workStart workEnd maxResults = []"
    unfolding loopDates_def by (subst visitedDates_unfold) simp
next
  assume "endDate \<le> startDate"
  then show "findAvailableSlots startDate endDate busySlots duration workStart workEnd
     maxResults = []"
    unfolding findAvailableSlots_def Let_def by (subst dateLoop_unfold) simp
qed

theorem handler_rejections_witness:
  "\<not> snd (exampleTimeParse (start_date (exampleArguments\<lparr>start_date := ''tomorrow''\<rparr>))) \<and>
   calendarFindTimeSlotHandler exampleTimeParse exampleListEvents
     (exampleArguments\<lparr>start_date := ''tomorrow''\<rparr>) =
     NewToolResultError ''Invalid start_date format'' \<and>
   exampleMonday \<le> exampleMonday + Day \<and>
   findAvailableSlots (exampleMonday + Day) exampleMonday [] (60 * Minute) ''09:00'' ''17:00'' 5 = []"
proof -
  have a: "\<not> snd (exampleTimeParse (start_date (exampleArguments\<lparr>start_date := ''tomorrow''\<rparr>)))"
    by (simp add: exampleTimeParse_def)
  have b: "exampleMonday \<le> exampleMonday + Day" using Day_pos by simp
  note t = handler_rejections[of exampleTimeParse exampleListEvents
      "exampleArguments\<lparr>start_date := ''tomorrow''\<rparr>" "''Invalid start_date format''"
      exampleMonday "exampleMonday + Day" "[]" "60 * Minute" "''09:00''" "''17:00''" 5]
  show ?thesis using a b t by blast
qed


text \<open>
  A call with a duration of 0 minutes is answered with slots of length 0, and a call
  whose range ends before it starts is answered with an empty list of slots; neither is
  an error.
\<close>

theorem handler_accepts_bad_range_counterexample:
  "calendarFindTimeSlotHandler exampleTimeParse exampleListEvents
     (exampleArguments\<lparr>guests := [], duration_minutes := 0\<rparr>) =
   NewToolResultText
     \<lparr>available_slots =
        [\<lparr>Start = exampleMonday + 9 * Hour, End = exampleMonday + 9 * Hour\<rparr>,
         \<lparr>Start = exampleMonday + 9 * Hour + 30 * Minute,
          End = exampleMonday + 9 * Hour + 30 * Minute\<rparr>],
      result_duration_minutes = 0,
      busy_times =
        [\<lparr>busyTime.Start = exampleMonday + 10 * Hour, End = exampleMonday + 11 * Hour,
          Summary = ''Standup'', Organizer = ''me@example.com'', CalendarId = ''primary''\<rparr>],
      guests_checked = None, room_filter = None\<rparr> \<and>
   calendarFindTimeSlotHandler exampleTimeParse exampleListEvents
     (exampleArguments\<lparr>guests := [], start_date := ''2024-01-02T00:00:00Z'',
        end_date := ''2024-01-01T00:00:00Z''\<rparr>) =
   NewToolResultText
     \<lparr>available_slots = [],
      result_duration_minutes = 60,
      busy_times =
        [\<lparr>busyTime.Start = exampleMonday + 10 * Hour, End = exampleMonday + 11 * Hour,
          Summary = ''Standup'', Organizer = ''me@example.com'', CalendarId = ''primary''\<rparr>],
      guests_checked = None, room_filter = None\<rparr>"
  by code_simp

text \<open>
  C4 at a failing input: the end of the working hours given as \<^verbatim>\<open>5pm\<close>.
  \<open>parseTimeString\<close> answers 09:00, as it does for the start, so the window is empty and
  no slot is found, where the window from 09:00 to 17:00 has one.  The call is not
  aborted.
\<close>

theorem unparsable_end_defaults_to_nine:
  "parseTimeString ''5pm'' = (9, 0) \<and>
   findAvailableSlots exampleMonday (exampleMonday + Day) [] (60 * Minute) ''09:00'' ''5pm'' 5 = [] \<and>
   findAvailableSlots exampleMonday (exampleMonday + Day) [] (60 * Minute) ''09:00'' ''17:00'' 1 =
     [\<lparr>Start = exampleMonday + 9 * Hour, End = exampleMonday + 10 * Hour\<rparr>] \<and>
   calendarFindTimeSlotHandler exampleTimeParse exampleListEvents
     (exampleArguments\<lparr>guests := [], working_hours_end := ''5pm''\<rparr>) =
   NewToolResultText
     \<lparr>available_slots = [],
      result_duration_minutes = 60,
      busy_times =
        [\<lparr>busyTime.Start = exampleMonday + 10 * Hour, End = exampleMonday + 11 * Hour,
          Summary = ''Standup'', Organizer = ''me@example.com'', CalendarId = ''primary''\<rparr>],
      guests_checked = None, room_filter = None\<rparr>"
  by code_simp

end
